theory Spec2Isabelle
  imports Complex_Main
begin

section \<open>Python and NumPy values used by the pipeline\<close>

text \<open>
  Exceptions are values.  The first four are the Python exceptions that the statements of
  \<^verbatim>\<open>profiling.py\<close> and \<^verbatim>\<open>classification.py\<close> can raise; the last two are failure
  kinds that only the specification names: no statement of the source raises them.
\<close>

datatype error =
    IndexError
  | ValueError
  | ZeroDivisionError
  | KeyError
  | ConfigurationError
  | IndeterminateMetricError

text \<open>
  A NumPy \<^verbatim>\<open>float64\<close> result.  Finite values are kept as exact rationals (rounding is not
  modelled); the three special values are what NumPy's division yields on a zero divisor.
\<close>

datatype np_float = Finite rat | PosInf | NegInf | NaN

text \<open>
  Python's normalisation of one bound of a slice \<^verbatim>\<open>xs[lo:hi]\<close> over a sequence of
  length \<open>len\<close>: a negative bound counts from the end, and every bound is clamped to
  \<open>0 .. len\<close>.
\<close>

definition py_index :: "nat \<Rightarrow> int \<Rightarrow> nat" where
  "py_index len k = (if k < 0 then nat (int len + k) else min (nat k) len)"

definition py_slice :: "'a list \<Rightarrow> int \<Rightarrow> int \<Rightarrow> 'a list" where
  \<comment> \<open>\<^verbatim>\<open>xs[lo:hi]\<close>\<close>
  "py_slice xs lo hi =
     (let l = py_index (length xs) lo; h = py_index (length xs) hi
      in take (h - l) (drop l xs))"

definition py_slice_to :: "'a list \<Rightarrow> int \<Rightarrow> 'a list" where
  \<comment> \<open>\<^verbatim>\<open>xs[:hi]\<close>\<close>
  "py_slice_to xs hi = take (py_index (length xs) hi) xs"

definition py_slice_from :: "'a list \<Rightarrow> int \<Rightarrow> 'a list" where
  \<comment> \<open>\<^verbatim>\<open>xs[lo:]\<close>\<close>
  "py_slice_from xs lo = drop (py_index (length xs) lo) xs"

definition py_slice_assign :: "'a list \<Rightarrow> int \<Rightarrow> int \<Rightarrow> 'a list \<Rightarrow> 'a list" where
  \<comment> \<open>\<^verbatim>\<open>xs[lo:hi] = c\<close> on a Python list: the slice is replaced by \<open>c\<close>, whatever its length\<close>
  "py_slice_assign xs lo hi c =
     (let l = py_index (length xs) lo; h = max l (py_index (length xs) hi)
      in take l xs @ c @ drop h xs)"

definition int_truediv :: "int \<Rightarrow> int \<Rightarrow> error + int" where
  \<comment> \<open>\<^verbatim>\<open>int(a / b)\<close> on Python ints: true division, then truncation towards zero; the
      quotient is taken as exact, which it is for the sizes of arrays\<close>
  "int_truediv a b =
     (if b = 0 then Inl ZeroDivisionError
      else Inr (sgn a * sgn b * (\<bar>a\<bar> div \<bar>b\<bar>)))"

definition int_of_product :: "int \<Rightarrow> rat \<Rightarrow> int" where
  \<comment> \<open>\<^verbatim>\<open>int(n * p)\<close> for an int \<open>n\<close> and a fraction \<open>p\<close>: truncation towards zero\<close>
  "int_of_product n p =
     (let q = of_int n * p in if q < 0 then \<lceil>q\<rceil> else \<lfloor>q\<rfloor>)"

definition np_true_divide :: "int \<Rightarrow> int \<Rightarrow> np_float" where
  \<comment> \<open>\<^verbatim>\<open>a / b\<close> on NumPy integer scalars: a zero divisor gives \<^verbatim>\<open>nan\<close> or an infinity,
      with a warning that \<^verbatim>\<open>profiling.py\<close> silences, and never an exception\<close>
  "np_true_divide a b =
     (if b = 0 then (if a = 0 then NaN else if 0 < a then PosInf else NegInf)
      else Finite (of_int a / of_int b))"

definition np_mean :: "int list \<Rightarrow> np_float" where
  "np_mean xs =
     (if xs = [] then NaN else Finite (of_int (sum_list xs) / of_nat (length xs)))"

definition np_var :: "int list \<Rightarrow> np_float" where
  \<comment> \<open>the population variance: the mean of the squared deviations from the mean\<close>
  "np_var xs =
     (if xs = [] then NaN
      else let m = of_int (sum_list xs) / of_nat (length xs)
           in Finite (sum_list (map (\<lambda>x. (of_int x - m) ^ 2) xs) / of_nat (length xs)))"


section \<open>Silence runs (\<^verbatim>\<open>profiling.py\<close>)\<close>

text \<open>
  \<^verbatim>\<open>extract_silence(data, threshold)\<close>.  The list \<open>s\<close> of run lengths is the loop's state;
  \<^verbatim>\<open>s[-1] += 1\<close> on an empty list would raise \<^verbatim>\<open>IndexError\<close>, and so would \<^verbatim>\<open>data[0]\<close>
  on an empty column.
\<close>

definition silence_step :: "int \<Rightarrow> int list \<Rightarrow> int list \<Rightarrow> nat \<Rightarrow> error + int list" where
  "silence_step threshold data s i =
     (if data ! i \<le> threshold then
        (if data ! (i - 1) > threshold then Inr (s @ [1])
         else if data ! (i - 1) \<le> threshold then
           (if s = [] then Inl IndexError else Inr (butlast s @ [last s + 1]))
         else Inr s)
      else Inr s)"

fun silence_loop :: "int \<Rightarrow> int list \<Rightarrow> int list \<Rightarrow> nat list \<Rightarrow> error + int list" where
  "silence_loop threshold data s [] = Inr s"
| "silence_loop threshold data s (i # rest) =
     (case silence_step threshold data s i of
        Inl e \<Rightarrow> Inl e
      | Inr s' \<Rightarrow> silence_loop threshold data s' rest)"

definition extract_silence :: "int list \<Rightarrow> int \<Rightarrow> error + int list" where
  "extract_silence data threshold =
     (if data = [] then Inl IndexError
      else
        case silence_loop threshold data
               (if data ! 0 \<le> threshold then [1] else []) [1..<length data] of
          Inl e \<Rightarrow> Inl e
        | Inr s \<Rightarrow> Inr (if s \<noteq> [] then s else [0]))"

text \<open>
  \<^verbatim>\<open>extract_features_silence(data)\<close> over a three-dimensional array, given as its list of
  windows (each a list of rows) together with \<open>n_cols\<close> from \<^verbatim>\<open>data.shape\<close>.
  \<open>column window c\<close> is \<^verbatim>\<open>data[i, :, c]\<close>; \<open>column_silence\<close> is the body of the inner
  loop, the two numbers appended for one column.
\<close>

definition column :: "'a list list \<Rightarrow> nat \<Rightarrow> 'a list" where
  "column window c = map (\<lambda>row. row ! c) window"

definition column_silence :: "int list list \<Rightarrow> nat \<Rightarrow> error + np_float list" where
  "column_silence window c =
     (case extract_silence (column window c) 250 of
        Inl e \<Rightarrow> Inl e
      | Inr silence \<Rightarrow> Inr [np_mean silence, np_var silence])"

fun window_silence :: "int list list \<Rightarrow> np_float list \<Rightarrow> nat list \<Rightarrow> error + np_float list" where
  "window_silence window silence_features [] = Inr silence_features"
| "window_silence window silence_features (c # cs) =
     (case column_silence window c of
        Inl e \<Rightarrow> Inl e
      | Inr pair \<Rightarrow> window_silence window (silence_features @ pair) cs)"

fun features_silence_loop ::
  "nat \<Rightarrow> np_float list list \<Rightarrow> int list list list \<Rightarrow> error + np_float list list" where
  "features_silence_loop n_cols features [] = Inr features"
| "features_silence_loop n_cols features (window # windows) =
     (case window_silence window [] [0..<n_cols] of
        Inl e \<Rightarrow> Inl e
      | Inr silence_features \<Rightarrow>
          features_silence_loop n_cols (features @ [silence_features]) windows)"

definition extract_features_silence ::
  "int list list list \<Rightarrow> nat \<Rightarrow> error + np_float list list" where
  "extract_features_silence data n_cols = features_silence_loop n_cols [] data"

section \<open>Window segmentation (\<^verbatim>\<open>profiling.py\<close>)\<close>

text \<open>
  A two-dimensional array is the list of its rows together with its number of columns
  (the rows of an array without rows do not determine it).  \<open>chunks k s rows\<close> cuts the
  first \<open>k * s\<close> rows into \<open>k\<close> consecutive blocks of \<open>s\<close> rows.
\<close>

definition chunks :: "nat \<Rightarrow> nat \<Rightarrow> 'a list \<Rightarrow> 'a list list" where
  "chunks k s rows = map (\<lambda>j. take s (drop (j * s) rows)) [0..<k]"

text \<open>
  \<^verbatim>\<open>data.reshape((k, s, n_cols))\<close> on an array of shape \<^verbatim>\<open>(len(data), n_cols)\<close>.  The last
  axis is kept, so a successful reshape groups whole rows.  A negative extent stands for
  the one extent NumPy infers; two of them, an inferred extent that does not divide the
  size, and a size mismatch are each a \<^verbatim>\<open>ValueError\<close>.
\<close>

definition np_reshape3 :: "'a list list \<Rightarrow> nat \<Rightarrow> int \<Rightarrow> int \<Rightarrow> error + 'a list list list" where
  "np_reshape3 data n_cols k s =
     (let size = length data * n_cols in
      if k < 0 \<and> s < 0 then Inl ValueError
      else if k < 0 then
        (let known = nat s * n_cols in
         if known = 0 \<or> size mod known \<noteq> 0 then Inl ValueError
         else Inr (chunks (size div known) (nat s) data))
      else if s < 0 then
        (let known = nat k * n_cols in
         if known = 0 \<or> size mod known \<noteq> 0 then Inl ValueError
         else Inr (chunks (nat k) (size div known) data))
      else if size \<noteq> nat k * nat s * n_cols then Inl ValueError
      else if n_cols = 0 then Inr (replicate (nat k) (replicate (nat s) []))
      else Inr (chunks (nat k) (nat s) data))"

definition np_concatenate :: "'a list list list \<Rightarrow> error + 'a list list" where
  \<comment> \<open>\<^verbatim>\<open>np.concatenate(arrays, axis=0)\<close>: it needs at least one array\<close>
  "np_concatenate arrays = (if arrays = [] then Inl ValueError else Inr (concat arrays))"

fun data_obs_list :: "'a list list list \<Rightarrow> int \<Rightarrow> nat list \<Rightarrow> error + 'a list list list" where
  \<comment> \<open>the list comprehension over \<^verbatim>\<open>range(n_obs_windows)\<close>\<close>
  "data_obs_list data_slices window_size [] = Inr []"
| "data_obs_list data_slices window_size (i # rest) =
     (case np_concatenate (py_slice data_slices (int i) (window_size + int i)) of
        Inl e \<Rightarrow> Inl e
      | Inr w \<Rightarrow>
          (case data_obs_list data_slices window_size rest of
             Inl e \<Rightarrow> Inl e
           | Inr ws \<Rightarrow> Inr (w # ws)))"

definition np_select :: "'a list list list \<Rightarrow> nat list \<Rightarrow> error + 'a list list list" where
  \<comment> \<open>\<^verbatim>\<open>data_obs[idx, :, :]\<close>.  \<^verbatim>\<open>np.array([])\<close> of an empty list of windows has one axis,
      so three indices are too many for it; an index beyond the windows is out of bounds\<close>
  "np_select data_obs idx =
     (if data_obs = [] then Inl IndexError
      else if \<exists>j \<in> set idx. length data_obs \<le> j then Inl IndexError
      else Inr (map (\<lambda>j. data_obs ! j) idx))"

text \<open>
  \<^verbatim>\<open>break_train_test(data, obs_window, slide_window, train_percentage, random_split)\<close>.
  \<open>permutation\<close> is the outcome of \<^verbatim>\<open>np.random.permutation(n_obs_windows)\<close>, which the
  source draws at random; it is read only when \<open>random_split\<close> holds.  The result is the
  pair \<^verbatim>\<open>(data_train, data_test)\<close>, each a list of windows.
\<close>

definition break_train_test ::
  "'a list list \<Rightarrow> nat \<Rightarrow> int \<Rightarrow> int \<Rightarrow> rat \<Rightarrow> bool \<Rightarrow> nat list
    \<Rightarrow> error + ('a list list list \<times> 'a list list list)" where
  "break_train_test data n_cols obs_window slide_window train_percentage random_split
       permutation =
     (case int_truediv obs_window slide_window of
        Inl e \<Rightarrow> Inl e
      | Inr window_size \<Rightarrow>
     (case int_truediv (int (length data) - obs_window) slide_window of
        Inl e \<Rightarrow> Inl e
      | Inr n_obs_windows \<Rightarrow>
     (let n_samples = (n_obs_windows - 1) * slide_window + obs_window;
          n_slide_windows = n_obs_windows + window_size - 1
      in
      case np_reshape3 (py_slice_to data n_samples) n_cols n_slide_windows slide_window of
        Inl e \<Rightarrow> Inl e
      | Inr data_slices \<Rightarrow>
     (case data_obs_list data_slices window_size [0..<nat n_obs_windows] of
        Inl e \<Rightarrow> Inl e
      | Inr data_obs \<Rightarrow>
     (let order = (if random_split then permutation else [0..<nat n_obs_windows]);
          n_train_windows = int_of_product n_obs_windows train_percentage
      in
      case np_select data_obs (py_slice_to order n_train_windows) of
        Inl e \<Rightarrow> Inl e
      | Inr data_train \<Rightarrow>
     (case np_select data_obs (py_slice_from order n_train_windows) of
        Inl e \<Rightarrow> Inl e
      | Inr data_test \<Rightarrow> Inr (data_train, data_test)))))))"


section \<open>Temporal smoothing (\<^verbatim>\<open>classification.py\<close>)\<close>

text \<open>
  A Python \<^verbatim>\<open>dict\<close> is an association list in insertion order: assigning to a key that is
  present keeps its place, a new key goes to the end.  \<open>Counter\<close> counts the labels of a
  window one by one, so its keys are in order of first occurrence.
\<close>

fun dict_set :: "('k \<times> 'v) list \<Rightarrow> 'k \<Rightarrow> 'v \<Rightarrow> ('k \<times> 'v) list" where
  "dict_set [] k v = [(k, v)]"
| "dict_set ((k', v') # d) k v =
     (if k' = k then (k, v) # d else (k', v') # dict_set d k v)"

definition count_one :: "'a \<Rightarrow> ('a \<times> int) list \<Rightarrow> ('a \<times> int) list" where
  "count_one x d = dict_set d x ((case map_of d x of None \<Rightarrow> 0 | Some n \<Rightarrow> n) + 1)"

definition Counter :: "'a list \<Rightarrow> ('a \<times> int) list" where
  "Counter window = fold count_one window []"

text \<open>
  \<^verbatim>\<open>max(num_class, key=num_class.get)\<close>: the first key, in the dictionary's order, whose
  count no other key exceeds; \<^verbatim>\<open>ValueError\<close> on an empty dictionary.
\<close>

definition max_by_count :: "('a \<times> int) list \<Rightarrow> error + 'a" where
  "max_by_count num_class =
     (case num_class of
        [] \<Rightarrow> Inl ValueError
      | kv # rest \<Rightarrow>
          Inr (fst (fold (\<lambda>kv' best. if snd best < snd kv' then kv' else best) rest kv)))"

text \<open>
  \<^verbatim>\<open>classify_aggregation_window(window, threshold)\<close>.  The fraction is compared as an exact
  rational.
\<close>

definition classify_aggregation_window :: "'a list \<Rightarrow> rat \<Rightarrow> error + 'a list" where
  "classify_aggregation_window window threshold =
     (let num_class = Counter window in
      case max_by_count num_class of
        Inl e \<Rightarrow> Inl e
      | Inr max_repetition \<Rightarrow>
          if of_int (case map_of num_class max_repetition of None \<Rightarrow> 0 | Some n \<Rightarrow> n)
               / of_nat (length window) > threshold
          then Inr (map (\<lambda>i. max_repetition) [0..<length window])
          else Inr window)"

text \<open>
  \<^verbatim>\<open>improve_classification_history(traffic_samples, traffic_idx, window_size, threshold)\<close>.
  \<open>history_while\<close> is the \<^verbatim>\<open>while\<close> loop with its state \<open>(i, traffic_idx)\<close>.  It ends for
  every input: with a positive \<open>window_size\<close> the index \<open>i\<close> approaches \<open>ts\<close>, and otherwise
  the slice is empty after at most one round, on which
  \<open>classify_aggregation_window\<close> raises.
\<close>

function history_while :: "int \<Rightarrow> rat \<Rightarrow> int \<Rightarrow> int \<Rightarrow> 'a list \<Rightarrow> error + (int \<times> 'a list)" where
  "history_while window_size threshold ts i traffic_idx =
     (if i + window_size < ts then
        (case classify_aggregation_window (py_slice traffic_idx i (i + window_size)) threshold of
           Inl e \<Rightarrow> Inl e
         | Inr c \<Rightarrow>
             history_while window_size threshold ts (i + window_size)
               (py_slice_assign traffic_idx i (i + window_size) c))
      else Inr (i, traffic_idx))"
  by pat_completeness auto
termination
proof (relation "measure (\<lambda>(window_size, threshold, ts, i, traffic_idx).
          if 0 < window_size then nat (ts - i) else if 0 \<le> i then 1 else 0)")
  show "wf (measure (\<lambda>(window_size :: int, threshold :: rat, ts :: int, i :: int, traffic_idx :: 'a list).
          if 0 < window_size then nat (ts - i) else if 0 \<le> i then 1 else (0::nat)))"
    by simp
next
  fix window_size :: int and threshold :: rat and ts i :: int
    and traffic_idx c :: "'a list"
  assume less: "i + window_size < ts"
    and ok: "classify_aggregation_window (py_slice traffic_idx i (i + window_size)) threshold
               = Inr c"
  have nonempty: "py_slice traffic_idx i (i + window_size) \<noteq> []"
  proof
    assume "py_slice traffic_idx i (i + window_size) = []"
    then have "classify_aggregation_window (py_slice traffic_idx i (i + window_size)) threshold
                 = Inl ValueError"
      by (simp add: classify_aggregation_window_def Counter_def max_by_count_def)
    with ok show False by simp
  qed
  show "((window_size, threshold, ts, i + window_size,
            py_slice_assign traffic_idx i (i + window_size) c),
         (window_size, threshold, ts, i, traffic_idx))
        \<in> measure (\<lambda>(window_size, threshold, ts, i, traffic_idx).
            if 0 < window_size then nat (ts - i) else if 0 \<le> i then 1 else 0)"
  proof (cases "0 < window_size")
    case True
    with less show ?thesis by simp
  next
    case False
    with nonempty have "0 \<le> i \<and> i + window_size < 0"
      by (auto simp: py_slice_def py_index_def Let_def split: if_splits)
    with False show ?thesis by simp
  qed
qed

definition history_segment :: "int \<Rightarrow> rat \<Rightarrow> 'a list \<Rightarrow> int \<Rightarrow> error + 'a list" where
  \<comment> \<open>the body of the \<^verbatim>\<open>for\<close> loop: \<open>i\<close> starts at 0 for every \<open>ts\<close>\<close>
  "history_segment window_size threshold traffic_idx ts =
     (case history_while window_size threshold ts 0 traffic_idx of
        Inl e \<Rightarrow> Inl e
      | Inr (i, traffic_idx') \<Rightarrow>
          if ts - i > 0 then
            (case classify_aggregation_window (py_slice traffic_idx' i ts) threshold of
               Inl e \<Rightarrow> Inl e
             | Inr c \<Rightarrow> Inr (py_slice_assign traffic_idx' i ts c))
          else Inr traffic_idx')"

fun history_for :: "int \<Rightarrow> rat \<Rightarrow> int list \<Rightarrow> 'a list \<Rightarrow> error + 'a list" where
  "history_for window_size threshold [] traffic_idx = Inr traffic_idx"
| "history_for window_size threshold (ts # rest) traffic_idx =
     (case history_segment window_size threshold traffic_idx ts of
        Inl e \<Rightarrow> Inl e
      | Inr traffic_idx' \<Rightarrow> history_for window_size threshold rest traffic_idx')"

definition improve_classification_history ::
  "int list \<Rightarrow> (nat \<times> 'a) list \<Rightarrow> int \<Rightarrow> rat \<Rightarrow> error + 'a list" where
  "improve_classification_history traffic_samples traffic_idx window_size threshold =
     history_for window_size threshold traffic_samples (map snd traffic_idx)"


section \<open>Scoring and the two-model ensemble (\<^verbatim>\<open>classification.py\<close>)\<close>

text \<open>
  \<^verbatim>\<open>conf_matrix[r0:r1, c0:c1].sum()\<close> on a two-dimensional integer array given as its list
  of rows.  Slicing never raises.
\<close>

definition block_sum :: "int list list \<Rightarrow> int \<Rightarrow> int \<Rightarrow> int \<Rightarrow> int \<Rightarrow> int" where
  "block_sum conf_matrix r0 r1 c0 c1 =
     sum_list (map (\<lambda>row. sum_list (py_slice row c0 c1)) (py_slice conf_matrix r0 r1))"

text \<open>
  \<^verbatim>\<open>binary_scores(conf_matrix, change_class, max_class)\<close> returns the tuple
  \<^verbatim>\<open>(tp, fn, fp, tn, precision, recall, accuracy)\<close>.  No statement of its body raises: the
  three quotients are NumPy divisions.
\<close>

definition binary_scores ::
  "int list list \<Rightarrow> int \<Rightarrow> int
    \<Rightarrow> error + (int \<times> int \<times> int \<times> int \<times> np_float \<times> np_float \<times> np_float)" where
  "binary_scores conf_matrix change_class max_class =
     (let tp = block_sum conf_matrix 0 change_class 0 change_class;
          fn = block_sum conf_matrix change_class (max_class + 1) 0 change_class;
          fp = block_sum conf_matrix 0 change_class change_class (max_class + 1);
          tn = block_sum conf_matrix change_class (max_class + 1) change_class (max_class + 1);
          precision = np_true_divide tp (tp + fp);
          recall = np_true_divide tp (tp + fn);
          accuracy = np_true_divide (tp + tn) (tp + fp + fn + tn)
      in Inr (tp, fn, fp, tn, precision, recall, accuracy))"

text \<open>
  The counts as the specification words them, for comparison with the source: a cell
  \<open>conf_matrix ! i ! j\<close> counts the windows of true class \<open>i\<close> predicted as \<open>j\<close>; the classes
  below \<open>split_low\<close> are the negative superclass and those in \<open>split_low .. split_high\<close> the
  positive one.  The result is \<open>(tp, fn, fp, tn)\<close>.
\<close>

definition spec_binary_counts :: "int list list \<Rightarrow> nat \<Rightarrow> nat \<Rightarrow> int \<times> int \<times> int \<times> int" where
  "spec_binary_counts conf_matrix split_low split_high =
     (let negative = [0..<split_low];
          positive = [split_low..<Suc split_high];
          cells = (\<lambda>true_ids predicted_ids.
                     \<Sum>i\<leftarrow>true_ids. \<Sum>j\<leftarrow>predicted_ids. conf_matrix ! i ! j)
      in (cells positive positive, cells positive negative,
          cells negative positive, cells negative negative))"

text \<open>
  The classifiers are opaque: a trained or loaded model is its \<^verbatim>\<open>predict\<close> function from a
  feature matrix to a label array.  Each \<^verbatim>\<open>classification_*\<close> function copies the
  prediction into a dictionary \<^verbatim>\<open>{i: result[i]}\<close> over the rows of the matrix, and
  \<^verbatim>\<open>result[i]\<close> raises \<^verbatim>\<open>IndexError\<close> beyond the end of the prediction.
\<close>

definition prediction_dict :: "'a list \<Rightarrow> nat \<Rightarrow> error + (nat \<times> 'a) list" where
  "prediction_dict result n =
     (if length result < n then Inl IndexError
      else Inr (map (\<lambda>i. (i, result ! i)) [0..<n]))"

definition classification_random_forests ::
  "('f list list \<Rightarrow> int list) \<Rightarrow> 'f list list \<Rightarrow> error + (nat \<times> int) list" where
  "classification_random_forests clf_predict norm_test_features =
     prediction_dict (clf_predict norm_test_features) (length norm_test_features)"

definition classification_silence ::
  "('f list list \<Rightarrow> int list) \<Rightarrow> 'f list list \<Rightarrow> error + (nat \<times> int) list" where
  "classification_silence clf_predict norm_test_features =
     prediction_dict (clf_predict norm_test_features) (length norm_test_features)"

definition columns :: "'f list list \<Rightarrow> int \<Rightarrow> int \<Rightarrow> 'f list list" where
  \<comment> \<open>\<^verbatim>\<open>features[:, lo:hi]\<close>\<close>
  "columns features lo hi = map (\<lambda>row. py_slice row lo hi) features"

fun y_test_list ::
  "(nat \<times> int) list \<Rightarrow> nat list \<Rightarrow> int list \<Rightarrow> nat list \<Rightarrow> error + int list" where
  \<comment> \<open>the final list comprehension; a key missing from \<^verbatim>\<open>y_test_model2\<close> is a
      \<^verbatim>\<open>KeyError\<close>\<close>
  "y_test_list y_test_model2 possible_mining y_test_model1 [] = Inr []"
| "y_test_list y_test_model2 possible_mining y_test_model1 (i # rest) =
     (case (if i \<in> set possible_mining
            then (case map_of y_test_model2 i of None \<Rightarrow> Inl KeyError | Some v \<Rightarrow> Inr v)
            else Inr (y_test_model1 ! i)) of
        Inl e \<Rightarrow> Inl e
      | Inr v \<Rightarrow>
          (case y_test_list y_test_model2 possible_mining y_test_model1 rest of
             Inl e \<Rightarrow> Inl e
           | Inr vs \<Rightarrow> Inr (v # vs)))"

text \<open>
  The branch \<^verbatim>\<open>args.method == 0\<close> of \<^verbatim>\<open>main\<close>, from the bulk prediction to \<^verbatim>\<open>y_test\<close>.
  \<open>traffic_samples_number\<close> is passed to \<open>improve_classification_history\<close> as the list it
  iterates over, with the defaults \<^verbatim>\<open>window_size=40\<close> and \<^verbatim>\<open>threshold=0.60\<close>.
\<close>

definition classify_multimethod ::
  "('f list list \<Rightarrow> int list) \<Rightarrow> ('f list list \<Rightarrow> int list) \<Rightarrow> int list \<Rightarrow> 'f list list
    \<Rightarrow> error + int list" where
  "classify_multimethod rf_predict silence_predict traffic_samples_number
       norm_pca_test_features =
     (case classification_random_forests rf_predict norm_pca_test_features of
        Inl e \<Rightarrow> Inl e
      | Inr y_dict \<Rightarrow>
     (case improve_classification_history traffic_samples_number y_dict 40 (3 / 5) of
        Inl e \<Rightarrow> Inl e
      | Inr y_test_model1 \<Rightarrow>
     (let possible_mining =
            filter (\<lambda>i. y_test_model1 ! i \<ge> 13) [0..<length y_test_model1]
      in
      case classification_silence silence_predict (columns norm_pca_test_features 24 32) of
        Inl e \<Rightarrow> Inl e
      | Inr y_test_model2 \<Rightarrow>
          y_test_list y_test_model2 possible_mining y_test_model1
            [0..<length y_test_model1])))"


section \<open>Properties of silence-run extraction\<close>

lemma silence_loop_append:
  "silence_loop thr data s (xs @ ys) =
     (case silence_loop thr data s xs of
        Inl e \<Rightarrow> Inl e
      | Inr s' \<Rightarrow> silence_loop thr data s' ys)"
  by (induction xs arbitrary: s) (auto split: sum.splits)

lemma sum_list_bump_last:
  assumes "s \<noteq> []"
  shows "sum_list (butlast s @ [last s + 1]) = sum_list s + (1::int)"
proof -
  from assms have "s = butlast s @ [last s]" by simp
  then have "sum_list s = sum_list (butlast s) + last s"
    by (metis sum_list.append sum_list.Cons sum_list.Nil add.right_neutral)
  then show ?thesis by simp
qed

text \<open>
  The loop invariant after the samples \<open>0 .. n\<close>: the runs recorded so far cover at most
  the samples seen, a run is open whenever the last sample is silent (so \<^verbatim>\<open>s[-1]\<close> never
  fails), and nothing is recorded while every sample is above the threshold.
\<close>

lemma silence_loop_invariant:
  assumes "n < length data"
  shows "\<exists>s. silence_loop thr data (if data ! 0 \<le> thr then [1] else []) [1..<Suc n] = Inr s
           \<and> sum_list s \<le> int (Suc n)
           \<and> (data ! n \<le> thr \<longrightarrow> s \<noteq> [])
           \<and> ((\<forall>j\<le>n. thr < data ! j) \<longrightarrow> s = [])"
  using assms
proof (induction n)
  case 0
  then show ?case by simp
next
  case (Suc n)
  then obtain s where
    s: "silence_loop thr data (if data ! 0 \<le> thr then [1] else []) [1..<Suc n] = Inr s"
      "sum_list s \<le> int (Suc n)" "data ! n \<le> thr \<longrightarrow> s \<noteq> []"
      "(\<forall>j\<le>n. thr < data ! j) \<longrightarrow> s = []"
    by auto
  have up: "[1..<Suc (Suc n)] = [1..<Suc n] @ [Suc n]" by simp
  have loop: "silence_loop thr data (if data ! 0 \<le> thr then [1] else []) [1..<Suc (Suc n)]
      = silence_step thr data s (Suc n)"
    unfolding up silence_loop_append using s(1) by (simp split: sum.splits)
  show ?case
  proof (cases "data ! Suc n \<le> thr")
    case above: False
    then have "silence_step thr data s (Suc n) = Inr s" by (simp add: silence_step_def)
    moreover have "(\<forall>j\<le>Suc n. thr < data ! j) \<longrightarrow> s = []"
      using s(4) by auto
    ultimately show ?thesis using loop s(2) above by auto
  next
    case below: True
    show ?thesis
    proof (cases "data ! n \<le> thr")
      case True
      then have ne: "s \<noteq> []" using s(3) by simp
      then have "silence_step thr data s (Suc n) = Inr (butlast s @ [last s + 1])"
        using below True by (simp add: silence_step_def)
      moreover have "sum_list (butlast s @ [last s + 1]) \<le> int (Suc (Suc n))"
        using sum_list_bump_last[OF ne] s(2) by linarith
      ultimately show ?thesis using loop below by auto
    next
      case False
      then have "silence_step thr data s (Suc n) = Inr (s @ [1])"
        using below by (simp add: silence_step_def)
      then show ?thesis using loop s(2) below by auto
    qed
  qed
qed

lemma extract_silence_total:
  assumes "data \<noteq> []"
  shows "\<exists>s. extract_silence data thr = Inr s \<and> s \<noteq> [] \<and> sum_list s \<le> int (length data)
           \<and> ((\<forall>x\<in>set data. thr < x) \<longrightarrow> s = [0])"
proof -
  obtain n where n: "length data = Suc n" using assms by (cases data) auto
  then have "n < length data" by simp
  from silence_loop_invariant[OF this, of thr] obtain s where
    s: "silence_loop thr data (if data ! 0 \<le> thr then [1] else []) [1..<Suc n] = Inr s"
      "sum_list s \<le> int (Suc n)" "(\<forall>j\<le>n. thr < data ! j) \<longrightarrow> s = []"
    by blast
  have all: "(\<forall>x\<in>set data. thr < x) \<Longrightarrow> (\<forall>j\<le>n. thr < data ! j)"
    using n by (simp add: less_Suc_eq_le[symmetric])
  show ?thesis
    using assms s n all by (auto simp: extract_silence_def)
qed

text \<open>
  Claim C5.  For a non-empty window and any column \<open>c\<close> of it, silence-run extraction returns
  a run list whose lengths sum to at most the window length; and when no sample of the
  column is at or below the threshold of \<^verbatim>\<open>extract_features_silence\<close>, the two features
  of the column are exactly mean 0 and variance 0: the run list is \<^verbatim>\<open>[0]\<close>, not an empty
  list on which the mean would be undefined.
\<close>

theorem silence_runs_bounded_and_degenerate:
  assumes "window \<noteq> []" and "\<forall>row \<in> set window. c < length row"
  shows "(\<exists>s. extract_silence (column window c) threshold = Inr s
            \<and> sum_list s \<le> int (length window)
            \<and> ((\<forall>x\<in>set (column window c). threshold < x) \<longrightarrow> s = [0]))
       \<and> ((\<forall>x\<in>set (column window c). 250 < x) \<longrightarrow>
            column_silence window c = Inr [Finite 0, Finite 0])"
proof -
  have ne: "column window c \<noteq> []" using assms by (simp add: column_def)
  have len: "length (column window c) = length window" by (simp add: column_def)
  from extract_silence_total[OF ne, of threshold] len
  have first: "\<exists>s. extract_silence (column window c) threshold = Inr s
            \<and> sum_list s \<le> int (length window)
            \<and> ((\<forall>x\<in>set (column window c). threshold < x) \<longrightarrow> s = [0])"
    by auto
  have second: "column_silence window c = Inr [Finite 0, Finite 0]"
    if "\<forall>x\<in>set (column window c). 250 < x"
  proof -
    from extract_silence_total[OF ne, of 250] that
    have "extract_silence (column window c) 250 = Inr [0]" by auto
    then show ?thesis by (simp add: column_silence_def np_mean_def np_var_def)
  qed
  from first second show ?thesis by blast
qed

theorem silence_runs_bounded_and_degenerate_witness:
  "[[260, 1], [270, 2], [300, 400 :: int]] \<noteq> []
   \<and> (\<exists>s. extract_silence (column [[260, 1], [270, 2], [300, 400]] 1) 256 = Inr s
          \<and> sum_list s \<le> 3)
   \<and> column_silence [[260, 1], [270, 2], [300, 400]] 0 = Inr [Finite 0, Finite 0]"
  using silence_runs_bounded_and_degenerate [of "[[260, 1], [270, 2], [300, 400]]" 1 256]
    silence_runs_bounded_and_degenerate [of "[[260, 1], [270, 2], [300, 400]]" 0 256]
  by (simp add: column_def)


declare history_while.simps [simp del]

section \<open>Properties of slices\<close>

lemma py_index_le: "py_index len k \<le> len"
  by (auto simp: py_index_def)

lemma py_index_nonneg: "0 \<le> k \<Longrightarrow> py_index len k = min (nat k) len"
  by (simp add: py_index_def)

lemma length_py_slice_assign:
  assumes "length c = length (py_slice xs lo hi)"
  shows "length (py_slice_assign xs lo hi c) = length xs"
proof -
  define l where "l = py_index (length xs) lo"
  define h where "h = py_index (length xs) hi"
  have "l \<le> length xs" "h \<le> length xs" by (simp_all add: l_def h_def py_index_le)
  moreover have "length c = min (h - l) (length xs - l)"
    using assms by (simp add: py_slice_def Let_def l_def h_def)
  ultimately show ?thesis
    by (auto simp: py_slice_assign_def Let_def l_def[symmetric] h_def[symmetric] max_def)
qed

lemma set_py_slice: "set (py_slice xs lo hi) \<subseteq> set xs"
  unfolding py_slice_def Let_def
  by (meson set_take_subset set_drop_subset subset_trans)

lemma set_py_slice_assign: "set (py_slice_assign xs lo hi c) \<subseteq> set xs \<union> set c"
proof -
  have "set (take l xs) \<subseteq> set xs" "set (drop h xs) \<subseteq> set xs" for l h
    by (simp_all add: set_take_subset set_drop_subset)
  then show ?thesis unfolding py_slice_assign_def Let_def by auto
qed

lemma py_slice_of_assign:
  assumes "0 \<le> lo" "lo \<le> hi" "length c = length (py_slice xs lo hi)"
  shows "py_slice (py_slice_assign xs lo hi c) lo hi = c"
proof -
  define l where "l = py_index (length xs) lo"
  define h where "h = py_index (length xs) hi"
  have lh: "l \<le> h" "h \<le> length xs"
    using assms(1,2) by (auto simp: l_def h_def py_index_nonneg)
  have lc: "length c = h - l"
    using assms(3) lh by (simp add: py_slice_def Let_def l_def h_def)
  have len: "length (py_slice_assign xs lo hi c) = length xs"
    by (rule length_py_slice_assign[OF assms(3)])
  have "py_slice_assign xs lo hi c = take l xs @ c @ drop h xs"
    using lh by (simp add: py_slice_assign_def Let_def l_def[symmetric] h_def[symmetric] max_def)
  then have "py_slice (py_slice_assign xs lo hi c) lo hi
      = take (h - l) (drop l (take l xs @ c @ drop h xs))"
    unfolding py_slice_def Let_def len by (simp add: l_def h_def)
  also have "\<dots> = c" using lh lc by simp
  finally show ?thesis .
qed

lemma py_slice_assign_same:
  assumes "0 \<le> lo" "lo \<le> hi"
  shows "py_slice_assign ys lo hi (py_slice ys lo hi) = ys"
proof -
  define l where "l = py_index (length ys) lo"
  define h where "h = py_index (length ys) hi"
  have lh: "l \<le> h" "h \<le> length ys"
    using assms by (auto simp: l_def h_def py_index_nonneg)
  have "py_slice_assign ys lo hi (py_slice ys lo hi)
      = take l ys @ take (h - l) (drop l ys) @ drop h ys"
    using lh by (simp add: py_slice_assign_def py_slice_def Let_def l_def[symmetric] h_def[symmetric] max_def)
  also have "take (h - l) (drop l ys) @ drop h ys = drop l ys"
  proof -
    have "drop h ys = drop (h - l) (drop l ys)" using lh by simp
    then show ?thesis by (metis append_take_drop_id)
  qed
  finally show ?thesis by simp
qed

lemma take_py_slice_assign:
  assumes "0 \<le> lo" "length c = length (py_slice xs lo hi)"
  shows "take (nat lo) (py_slice_assign xs lo hi c) = take (nat lo) xs"
proof (cases "nat lo \<le> length xs")
  case True
  then show ?thesis
    using assms(1) by (simp add: py_slice_assign_def Let_def py_index_nonneg min_def)
next
  case False
  then have "py_slice xs lo hi = []"
    using assms(1) by (simp add: py_slice_def Let_def py_index_nonneg)
  with assms(2) have "c = []" by simp
  with False show ?thesis
    using assms(1) by (simp add: py_slice_assign_def Let_def py_index_nonneg min_def)
qed

lemma py_slice_cong_prefix:
  assumes "0 \<le> lo" "0 \<le> hi" "hi \<le> k" "length zs = length ys"
    "take (nat k) zs = take (nat k) ys"
  shows "py_slice zs lo hi = py_slice ys lo hi"
proof -
  define l where "l = py_index (length ys) lo"
  define h where "h = py_index (length ys) hi"
  have hk: "h \<le> nat k" using assms(2,3) by (simp add: h_def py_index_nonneg)
  have "take (h - l) (drop l zs) = drop l (take h zs)" for zs :: "'a list"
    by (simp add: drop_take)
  moreover have "take h zs = take h ys"
    using hk assms(5) by (metis min.absorb1 take_take)
  ultimately show ?thesis
    by (simp add: py_slice_def Let_def assms(4) l_def[symmetric] h_def[symmetric])
qed

section \<open>Properties of the majority vote\<close>

lemma keys_dict_set: "fst ` set (dict_set d k v) = insert k (fst ` set d)"
proof (induction d)
  case Nil
  show ?case by simp
next
  case (Cons p d)
  obtain k' v' where p: "p = (k', v')" by (cases p)
  show ?case
  proof (cases "k' = k")
    case True
    then show ?thesis by (simp add: p)
  next
    case False
    then show ?thesis using Cons.IH by (simp add: p insert_commute)
  qed
qed

lemma keys_count_one: "fst ` set (count_one x d) = insert x (fst ` set d)"
  by (simp add: count_one_def keys_dict_set)

lemma keys_fold_count_one: "fst ` set (fold count_one w d) = set w \<union> fst ` set d"
proof (induction w arbitrary: d)
  case Nil
  show ?case by simp
next
  case (Cons x w)
  have "fst ` set (fold count_one (x # w) d) = set w \<union> fst ` set (count_one x d)"
    using Cons.IH[of "count_one x d"] by simp
  also have "\<dots> = set (x # w) \<union> fst ` set d"
    by (simp only: keys_count_one) auto
  finally show ?case .
qed

lemma keys_Counter: "fst ` set (Counter w) = set w"
  by (simp add: Counter_def keys_fold_count_one)

lemma fold_best_in:
  "fold (\<lambda>kv' best. if snd best < snd kv' then kv' else best) rest kv \<in> set (kv # rest)"
proof (induction rest arbitrary: kv)
  case Nil
  show ?case by simp
next
  case (Cons a rest)
  let ?f = "\<lambda>kv' best. if snd best < snd kv' then kv' else best"
  have step: "fold ?f (a # rest) kv = fold ?f rest (?f a kv)" by simp
  have ih: "fold ?f rest (?f a kv) \<in> set (?f a kv # rest)" by (rule Cons.IH)
  have sub: "set (?f a kv # rest) \<subseteq> set (kv # a # rest)" by auto
  from ih sub have "fold ?f rest (?f a kv) \<in> set (kv # a # rest)" by (rule subsetD[rotated])
  then show ?case unfolding step .
qed

lemma max_by_count_in:
  assumes "max_by_count d = Inr m"
  shows "m \<in> fst ` set d"
proof (cases d)
  case Nil
  with assms show ?thesis by (simp add: max_by_count_def)
next
  case (Cons kv rest)
  with assms have "m = fst (fold (\<lambda>kv' best. if snd best < snd kv' then kv' else best) rest kv)"
    by (simp add: max_by_count_def)
  moreover have "fold (\<lambda>kv' best. if snd best < snd kv' then kv' else best) rest kv \<in> set d"
    unfolding Cons by (rule fold_best_in)
  ultimately show ?thesis by (simp only: image_eqI)
qed

lemma max_by_count_total: "d \<noteq> [] \<Longrightarrow> \<exists>m. max_by_count d = Inr m"
  by (cases d) (simp_all add: max_by_count_def)

lemma Counter_empty_iff: "Counter w = [] \<longleftrightarrow> w = []"
proof
  assume "Counter w = []"
  then have "fst ` set (Counter w) = {}" by simp
  then show "w = []" by (simp only: keys_Counter set_empty)
next
  assume "w = []"
  then show "Counter w = []" by (simp add: Counter_def)
qed

lemma map_const_upt: "map (\<lambda>i. m) [0..<n] = replicate n m"
  by (simp add: map_replicate_const)

lemma classify_total: "w \<noteq> [] \<Longrightarrow> \<exists>c. classify_aggregation_window w thr = Inr c"
proof -
  assume "w \<noteq> []"
  then have "Counter w \<noteq> []" by (simp add: Counter_empty_iff)
  then obtain m where "max_by_count (Counter w) = Inr m" using max_by_count_total by blast
  then show ?thesis by (simp add: classify_aggregation_window_def Let_def)
qed

lemma classify_cases:
  assumes "classify_aggregation_window w thr = Inr c"
  shows "w \<noteq> [] \<and> (c = w \<or> (\<exists>m \<in> set w. c = replicate (length w) m))"
proof -
  have ne: "w \<noteq> []"
  proof
    assume "w = []"
    then have "classify_aggregation_window w thr = Inl ValueError"
      by (simp add: classify_aggregation_window_def Counter_def max_by_count_def)
    with assms show False by simp
  qed
  then have "Counter w \<noteq> []" by (simp add: Counter_empty_iff)
  then obtain m where m: "max_by_count (Counter w) = Inr m" using max_by_count_total by blast
  then have "m \<in> set w" using max_by_count_in keys_Counter by metis
  with assms m ne show ?thesis
    by (auto simp: classify_aggregation_window_def Let_def map_const_upt split: if_splits)
qed

lemma classify_length:
  assumes "classify_aggregation_window w thr = Inr c"
  shows "length c = length w"
  using classify_cases[OF assms] by auto

lemma classify_set:
  assumes "classify_aggregation_window w thr = Inr c"
  shows "set c \<subseteq> set w"
  using classify_cases[OF assms] by auto

lemma fold_count_one_replicate:
  "fold count_one (replicate n m) [(m, k)] = [(m, k + int n)]"
proof (induction n arbitrary: k)
  case 0
  show ?case by simp
next
  case (Suc n)
  have "fold count_one (replicate (Suc n) m) [(m, k)]
      = fold count_one (replicate n m) (count_one m [(m, k)])"
    by (simp only: replicate_Suc fold_simps)
  also have "count_one m [(m, k)] = [(m, k + 1)]" by (simp add: count_one_def)
  also have "fold count_one (replicate n m) [(m, k + 1)] = [(m, k + 1 + int n)]"
    by (rule Suc.IH)
  finally show ?case by simp
qed

lemma Counter_replicate: "0 < n \<Longrightarrow> Counter (replicate n m) = [(m, int n)]"
proof -
  assume "0 < n"
  then obtain n' where n: "n = Suc n'" by (cases n) auto
  have "Counter (replicate n m) = fold count_one (replicate n' m) (count_one m [])"
    unfolding Counter_def n by (simp only: replicate_Suc fold_simps)
  also have "count_one m [] = [(m, 1)]" by (simp add: count_one_def)
  finally show ?thesis by (simp only: fold_count_one_replicate n) simp
qed

lemma classify_replicate:
  "0 < n \<Longrightarrow> classify_aggregation_window (replicate n m) thr = Inr (replicate n m)"
  by (simp add: classify_aggregation_window_def Counter_replicate max_by_count_def map_const_upt)

lemma classify_idem:
  assumes "classify_aggregation_window w thr = Inr c"
  shows "classify_aggregation_window c thr = Inr c"
proof -
  from classify_cases[OF assms] have ne: "w \<noteq> []"
    and c: "c = w \<or> (\<exists>m \<in> set w. c = replicate (length w) m)" by auto
  from c show ?thesis
  proof
    assume "c = w" with assms show ?thesis by simp
  next
    assume "\<exists>m \<in> set w. c = replicate (length w) m"
    then obtain m where "c = replicate (length w) m" by blast
    with ne show ?thesis by (simp add: classify_replicate)
  qed
qed

section \<open>Properties of temporal smoothing\<close>

lemma history_while_length_set:
  "history_while ws thr ts i xs = Inr (j, ys) \<Longrightarrow> length ys = length xs \<and> set ys \<subseteq> set xs"
proof (induction ws thr ts i xs rule: history_while.induct)
  case (1 ws thr ts i xs)
  show ?case
  proof (cases "i + ws < ts")
    case False
    with "1.prems" show ?thesis by (simp add: history_while.simps)
  next
    case True
    with "1.prems" obtain c where
      c: "classify_aggregation_window (py_slice xs i (i + ws)) thr = Inr c"
      and rec: "history_while ws thr ts (i + ws) (py_slice_assign xs i (i + ws) c) = Inr (j, ys)"
      by (subst (asm) history_while.simps) (auto split: sum.splits)
    from "1.IH"[OF True c rec]
    have ih: "length ys = length (py_slice_assign xs i (i + ws) c)"
      "set ys \<subseteq> set (py_slice_assign xs i (i + ws) c)" by auto
    have "length (py_slice_assign xs i (i + ws) c) = length xs"
      by (rule length_py_slice_assign) (simp add: classify_length[OF c])
    moreover have "set (py_slice_assign xs i (i + ws) c) \<subseteq> set xs"
      using set_py_slice_assign[of xs i "i + ws" c] classify_set[OF c]
        set_py_slice[of xs i "i + ws"] by blast
    ultimately show ?thesis using ih by auto
  qed
qed

lemma history_while_unfold_step:
  assumes "i + ws < ts"
    "classify_aggregation_window (py_slice xs i (i + ws)) thr = Inr c"
  shows "history_while ws thr ts i xs
       = history_while ws thr ts (i + ws) (py_slice_assign xs i (i + ws) c)"
  using assms by (subst history_while.simps) simp

lemma history_while_stop:
  "\<not> i + ws < ts \<Longrightarrow> history_while ws thr ts i xs = Inr (i, xs)"
  by (subst history_while.simps) simp

lemma history_while_step_cases:
  assumes "history_while ws thr ts i xs = Inr (j, ys)" "i + ws < ts"
  obtains c where "classify_aggregation_window (py_slice xs i (i + ws)) thr = Inr c"
    "history_while ws thr ts (i + ws) (py_slice_assign xs i (i + ws) c) = Inr (j, ys)"
  using assms by (subst (asm) history_while.simps) (auto split: sum.splits)

lemma py_slice_nonempty:
  assumes "0 \<le> lo" "lo < hi" "nat lo < length xs"
  shows "py_slice xs lo hi \<noteq> []"
  using assms by (auto simp: py_slice_def Let_def py_index_nonneg)

lemma history_while_total:
  assumes "0 < ws" "0 \<le> i" "ts \<le> int (length xs)"
  shows "\<exists>j ys. history_while ws thr ts i xs = Inr (j, ys) \<and> i \<le> j \<and> (j = i \<or> j < ts)"
  using assms
proof (induction ws thr ts i xs rule: history_while.induct)
  case (1 ws thr ts i xs)
  show ?case
  proof (cases "i + ws < ts")
    case False
    then show ?thesis by (simp add: history_while_stop)
  next
    case True
    have "py_slice xs i (i + ws) \<noteq> []"
      using True "1.prems" by (intro py_slice_nonempty) auto
    then obtain c where c: "classify_aggregation_window (py_slice xs i (i + ws)) thr = Inr c"
      using classify_total by blast
    have len: "length (py_slice_assign xs i (i + ws) c) = length xs"
      by (rule length_py_slice_assign) (simp add: classify_length[OF c])
    have "\<exists>j ys. history_while ws thr ts (i + ws) (py_slice_assign xs i (i + ws) c) = Inr (j, ys)
            \<and> i + ws \<le> j \<and> (j = i + ws \<or> j < ts)"
      using "1.IH"[OF True c] "1.prems" len by simp
    then show ?thesis
      using history_while_unfold_step[OF True c] True "1.prems"(1) by auto
  qed
qed

lemma history_while_frame:
  assumes "history_while ws thr ts i xs = Inr (j, ys)" "0 < ws" "0 \<le> i"
  shows "i \<le> j \<and> take (nat i) ys = take (nat i) xs"
  using assms
proof (induction ws thr ts i xs rule: history_while.induct)
  case (1 ws thr ts i xs)
  show ?case
  proof (cases "i + ws < ts")
    case False
    with "1.prems" show ?thesis by (simp add: history_while_stop)
  next
    case True
    from history_while_step_cases[OF "1.prems"(1) True] obtain c where
      c: "classify_aggregation_window (py_slice xs i (i + ws)) thr = Inr c"
      and rec: "history_while ws thr ts (i + ws) (py_slice_assign xs i (i + ws) c) = Inr (j, ys)"
      by blast
    have ih: "i + ws \<le> j"
      "take (nat (i + ws)) ys = take (nat (i + ws)) (py_slice_assign xs i (i + ws) c)"
      using "1.IH"[OF True c rec] "1.prems" by auto
    have "take (nat i) ys = take (nat i) (take (nat (i + ws)) ys)"
      using "1.prems" by (simp add: min_def)
    also have "\<dots> = take (nat i) (py_slice_assign xs i (i + ws) c)"
      using "1.prems" by (simp add: ih(2) min_def)
    also have "\<dots> = take (nat i) xs"
      using "1.prems" by (intro take_py_slice_assign) (simp_all add: classify_length[OF c])
    finally show ?thesis using ih(1) "1.prems" by simp
  qed
qed

lemma history_while_fixed:
  assumes "history_while ws thr ts i xs = Inr (j, ys)" "0 < ws" "0 \<le> i"
    "length zs = length ys" "take (nat j) zs = take (nat j) ys"
  shows "history_while ws thr ts i zs = Inr (j, zs)"
  using assms
proof (induction ws thr ts i xs rule: history_while.induct)
  case (1 ws thr ts i xs)
  show ?case
  proof (cases "i + ws < ts")
    case False
    with "1.prems" show ?thesis by (simp add: history_while_stop)
  next
    case True
    from history_while_step_cases[OF "1.prems"(1) True] obtain c where
      c: "classify_aggregation_window (py_slice xs i (i + ws)) thr = Inr c"
      and rec: "history_while ws thr ts (i + ws) (py_slice_assign xs i (i + ws) c) = Inr (j, ys)"
      by blast
    let ?xs' = "py_slice_assign xs i (i + ws) c"
    have lc: "length c = length (py_slice xs i (i + ws))" by (simp add: classify_length[OF c])
    have len': "length ?xs' = length xs" by (rule length_py_slice_assign[OF lc])
    have fr: "i + ws \<le> j" "take (nat (i + ws)) ys = take (nat (i + ws)) ?xs'"
      using history_while_frame[OF rec] "1.prems" by auto
    have leny: "length ys = length ?xs'"
      using history_while_length_set[OF rec] by simp
    have "py_slice zs i (i + ws) = py_slice ys i (i + ws)"
      using "1.prems" fr(1) by (intro py_slice_cong_prefix[where k = j]) auto
    also have "\<dots> = py_slice ?xs' i (i + ws)"
      using "1.prems" fr(2) leny by (intro py_slice_cong_prefix[where k = "i + ws"]) auto
    also have "\<dots> = c"
      using "1.prems" lc by (intro py_slice_of_assign) auto
    finally have sl: "py_slice zs i (i + ws) = c" .
    have cc: "classify_aggregation_window (py_slice zs i (i + ws)) thr = Inr c"
      unfolding sl by (rule classify_idem[OF c])
    have same: "py_slice_assign zs i (i + ws) c = zs"
      using py_slice_assign_same[of i "i + ws" zs] "1.prems" sl by simp
    have "history_while ws thr ts (i + ws) zs = Inr (j, zs)"
      using "1.IH"[OF True c rec] "1.prems" by simp
    then show ?thesis
      using history_while_unfold_step[OF True cc] same by simp
  qed
qed

lemma history_segment_length_set:
  assumes "history_segment ws thr xs ts = Inr ys"
  shows "length ys = length xs \<and> set ys \<subseteq> set xs"
proof -
  from assms obtain j xs1 where w: "history_while ws thr ts 0 xs = Inr (j, xs1)"
    by (auto simp: history_segment_def split: sum.splits)
  have a: "length xs1 = length xs" "set xs1 \<subseteq> set xs"
    using history_while_length_set[OF w] by auto
  show ?thesis
  proof (cases "ts - j > 0")
    case False
    with assms w a show ?thesis by (simp add: history_segment_def)
  next
    case True
    with assms w obtain c where
      c: "classify_aggregation_window (py_slice xs1 j ts) thr = Inr c"
      and ys: "ys = py_slice_assign xs1 j ts c"
      by (auto simp: history_segment_def split: sum.splits)
    have "length ys = length xs1"
      unfolding ys by (rule length_py_slice_assign) (simp add: classify_length[OF c])
    moreover have "set ys \<subseteq> set xs1"
      unfolding ys using set_py_slice_assign[of xs1 j ts c] classify_set[OF c]
        set_py_slice[of xs1 j ts] by blast
    ultimately show ?thesis using a by auto
  qed
qed

lemma history_segment_total:
  assumes "0 < ws" "ts \<le> int (length xs)"
  shows "\<exists>ys. history_segment ws thr xs ts = Inr ys"
proof -
  from history_while_total[OF assms(1) _ assms(2), of 0 thr] obtain j xs1 where
    w: "history_while ws thr ts 0 xs = Inr (j, xs1)" and j: "0 \<le> j" "j = 0 \<or> j < ts"
    by auto
  have len: "length xs1 = length xs" using history_while_length_set[OF w] by simp
  show ?thesis
  proof (cases "ts - j > 0")
    case False
    with w show ?thesis by (simp add: history_segment_def)
  next
    case True
    have "py_slice xs1 j ts \<noteq> []"
      using True j assms(2) len by (intro py_slice_nonempty) auto
    then obtain c where "classify_aggregation_window (py_slice xs1 j ts) thr = Inr c"
      using classify_total by blast
    with w True show ?thesis by (simp add: history_segment_def)
  qed
qed

lemma history_segment_idem:
  assumes "history_segment ws thr xs ts = Inr ys" "0 < ws"
  shows "history_segment ws thr ys ts = Inr ys"
proof -
  from assms obtain j xs1 where w: "history_while ws thr ts 0 xs = Inr (j, xs1)"
    by (auto simp: history_segment_def split: sum.splits)
  have j0: "0 \<le> j" using history_while_frame[OF w assms(2)] by simp
  show ?thesis
  proof (cases "ts - j > 0")
    case False
    with assms w have "ys = xs1" by (simp add: history_segment_def)
    moreover have "history_while ws thr ts 0 xs1 = Inr (j, xs1)"
      by (rule history_while_fixed[OF w assms(2)]) simp_all
    ultimately show ?thesis using False by (simp add: history_segment_def)
  next
    case True
    with assms w obtain c where
      c: "classify_aggregation_window (py_slice xs1 j ts) thr = Inr c"
      and ys: "ys = py_slice_assign xs1 j ts c"
      by (auto simp: history_segment_def split: sum.splits)
    have lc: "length c = length (py_slice xs1 j ts)" by (simp add: classify_length[OF c])
    have len: "length ys = length xs1"
      unfolding ys by (rule length_py_slice_assign[OF lc])
    have pre: "take (nat j) ys = take (nat j) xs1"
      unfolding ys by (rule take_py_slice_assign[OF j0 lc])
    have w2: "history_while ws thr ts 0 ys = Inr (j, ys)"
      by (rule history_while_fixed[OF w assms(2) _ len pre]) simp
    have sl: "py_slice ys j ts = c"
      unfolding ys using j0 True lc by (intro py_slice_of_assign) auto
    have cc: "classify_aggregation_window (py_slice ys j ts) thr = Inr c"
      unfolding sl by (rule classify_idem[OF c])
    have same: "py_slice_assign ys j ts c = ys"
      using py_slice_assign_same[of j ts ys] j0 True sl by simp
    show ?thesis using w2 True cc same by (simp add: history_segment_def)
  qed
qed

lemma history_for_length_set:
  "history_for ws thr tss xs = Inr ys \<Longrightarrow> length ys = length xs \<and> set ys \<subseteq> set xs"
proof (induction tss arbitrary: xs)
  case Nil
  then show ?case by simp
next
  case (Cons ts tss)
  then obtain xs1 where s: "history_segment ws thr xs ts = Inr xs1"
    and r: "history_for ws thr tss xs1 = Inr ys"
    by (auto split: sum.splits)
  from history_segment_length_set[OF s] Cons.IH[OF r] show ?case by auto
qed

lemma history_for_total:
  assumes "0 < ws" "\<forall>ts \<in> set tss. ts \<le> int (length xs)"
  shows "\<exists>ys. history_for ws thr tss xs = Inr ys"
  using assms(2)
proof (induction tss arbitrary: xs)
  case Nil
  show ?case by simp
next
  case (Cons ts tss)
  then have "ts \<le> int (length xs)" by simp
  from history_segment_total[OF assms(1) this, of thr] obtain xs1 where
    s: "history_segment ws thr xs ts = Inr xs1" by blast
  have "length xs1 = length xs" using history_segment_length_set[OF s] by simp
  with Cons.prems have "\<forall>ts \<in> set tss. ts \<le> int (length xs1)" by simp
  from Cons.IH[OF this] s show ?case by auto
qed

text \<open>
  A pass leaves alone what an earlier pass with a smaller or equal end \<open>ts\<close> has settled:
  both cut the sequence on the same grid, and the last chunk of the earlier pass is a
  prefix of a chunk of the later one.  So for a nondecreasing \<open>traffic_samples\<close> the result
  of all passes is a fixed point of every one of them.
\<close>

lemma drop_py_slice_assign:
  assumes "0 \<le> lo" "lo \<le> hi" "length c = length (py_slice xs lo hi)"
  shows "drop (nat hi) (py_slice_assign xs lo hi c) = drop (nat hi) xs"
proof -
  define l where "l = py_index (length xs) lo"
  define h where "h = py_index (length xs) hi"
  have lh: "l \<le> h" "h \<le> length xs" "h = min (nat hi) (length xs)"
    using assms(1,2) by (auto simp: l_def h_def py_index_nonneg)
  have lc: "length c = h - l"
    using assms(3) lh by (simp add: py_slice_def Let_def l_def h_def)
  have eq: "py_slice_assign xs lo hi c = (take l xs @ c) @ drop h xs"
    using lh by (simp add: py_slice_assign_def Let_def l_def[symmetric] h_def[symmetric] max_def)
  have len: "length (take l xs @ c) = h" using lh lc by simp
  show ?thesis
  proof (cases "nat hi \<le> length xs")
    case True
    then have "h = nat hi" using lh(3) by simp
    then show ?thesis unfolding eq using len by simp
  next
    case False
    then have "h = length xs" using lh(3) by simp
    then show ?thesis unfolding eq using len False by simp
  qed
qed

lemma py_slice_prefix:
  assumes "0 \<le> lo" "lo \<le> hi1" "hi1 \<le> hi2"
  shows "py_slice ys lo hi1 = take (nat (hi1 - lo)) (py_slice ys lo hi2)"
proof -
  define l h1 h2 where "l = nat lo" and "h1 = nat hi1" and "h2 = nat hi2"
  have le: "l \<le> h1" "h1 \<le> h2" using assms by (simp_all add: l_def h1_def h2_def)
  have n: "nat (hi1 - lo) = h1 - l" using assms by (simp add: l_def h1_def)
  have i: "py_index (length ys) lo = min l (length ys)"
    "py_index (length ys) hi1 = min h1 (length ys)"
    "py_index (length ys) hi2 = min h2 (length ys)"
    using assms by (simp_all add: py_index_nonneg l_def h1_def h2_def)
  have "take (min h1 (length ys) - min l (length ys)) (drop (min l (length ys)) ys)
      = take (h1 - l) (take (min h2 (length ys) - min l (length ys)) (drop (min l (length ys)) ys))"
    using le by (auto simp: min_def)
  then show ?thesis unfolding py_slice_def Let_def i n .
qed

lemma history_while_exit:
  "history_while ws thr ts i xs = Inr (j, ys) \<Longrightarrow> \<not> j + ws < ts"
proof (induction ws thr ts i xs rule: history_while.induct)
  case (1 ws thr ts i xs)
  show ?case
  proof (cases "i + ws < ts")
    case False
    with "1.prems" show ?thesis by (simp add: history_while_stop)
  next
    case True
    from history_while_step_cases[OF "1.prems" True] obtain c where
      "classify_aggregation_window (py_slice xs i (i + ws)) thr = Inr c"
      "history_while ws thr ts (i + ws) (py_slice_assign xs i (i + ws) c) = Inr (j, ys)"
      by blast
    then show ?thesis by (rule "1.IH"[OF True])
  qed
qed

lemma history_while_frame_above:
  assumes "history_while ws thr ts i xs = Inr (j, ys)" "0 < ws" "0 \<le> i"
  shows "drop (nat j) ys = drop (nat j) xs"
  using assms
proof (induction ws thr ts i xs rule: history_while.induct)
  case (1 ws thr ts i xs)
  show ?case
  proof (cases "i + ws < ts")
    case False
    with "1.prems" show ?thesis by (simp add: history_while_stop)
  next
    case True
    from history_while_step_cases[OF "1.prems"(1) True] obtain c where
      c: "classify_aggregation_window (py_slice xs i (i + ws)) thr = Inr c"
      and rec: "history_while ws thr ts (i + ws) (py_slice_assign xs i (i + ws) c) = Inr (j, ys)"
      by blast
    let ?xs' = "py_slice_assign xs i (i + ws) c"
    have ij: "i + ws \<le> j" using history_while_frame[OF rec] "1.prems" by simp
    have ih: "drop (nat j) ys = drop (nat j) ?xs'"
      using "1.IH"[OF True c rec] "1.prems" by simp
    have d: "drop (nat (i + ws)) ?xs' = drop (nat (i + ws)) xs"
      using "1.prems" by (intro drop_py_slice_assign) (simp_all add: classify_length[OF c])
    have "nat j = (nat j - nat (i + ws)) + nat (i + ws)" using ij "1.prems" by simp
    then have "drop (nat j) zs = drop (nat j - nat (i + ws)) (drop (nat (i + ws)) zs)"
      for zs :: "'a list"
      by (metis drop_drop)
    with d ih show ?thesis by simp
  qed
qed

lemma history_segment_fixedD:
  assumes "history_segment ws thr xs ts = Inr xs" "0 < ws"
  shows "\<exists>j. history_while ws thr ts 0 xs = Inr (j, xs) \<and> 0 \<le> j \<and> \<not> j + ws < ts
           \<and> (ts - j > 0 \<longrightarrow>
                classify_aggregation_window (py_slice xs j ts) thr = Inr (py_slice xs j ts))"
proof -
  from assms obtain j xs1 where w: "history_while ws thr ts 0 xs = Inr (j, xs1)"
    by (auto simp: history_segment_def split: sum.splits)
  have j0: "0 \<le> j" using history_while_frame[OF w assms(2)] by simp
  have ex: "\<not> j + ws < ts" by (rule history_while_exit[OF w])
  have above: "drop (nat j) xs1 = drop (nat j) xs"
    using history_while_frame_above[OF w assms(2)] by simp
  show ?thesis
  proof (cases "ts - j > 0")
    case False
    with assms w have "xs1 = xs" by (simp add: history_segment_def)
    with w j0 ex False show ?thesis by auto
  next
    case True
    with assms w obtain c where
      c: "classify_aggregation_window (py_slice xs1 j ts) thr = Inr c"
      and xs: "xs = py_slice_assign xs1 j ts c"
      by (auto simp: history_segment_def split: sum.splits)
    have lc: "length c = length (py_slice xs1 j ts)" by (simp add: classify_length[OF c])
    have "take (nat j) xs = take (nat j) xs1"
      by (subst xs) (rule take_py_slice_assign[OF j0 lc])
    with above have eq: "xs1 = xs" by (metis append_take_drop_id)
    have "py_slice (py_slice_assign xs1 j ts c) j ts = c"
      using j0 True lc by (intro py_slice_of_assign) simp_all
    then have "py_slice xs j ts = c" using xs by simp
    with c eq w j0 ex show ?thesis by auto
  qed
qed

lemma history_segment_fixedI:
  assumes "history_while ws thr ts 0 zs = Inr (j, zs)" "0 \<le> j"
    "ts - j > 0 \<longrightarrow>
       classify_aggregation_window (py_slice zs j ts) thr = Inr (py_slice zs j ts)"
  shows "history_segment ws thr zs ts = Inr zs"
proof (cases "ts - j > 0")
  case False
  with assms(1) show ?thesis by (simp add: history_segment_def)
next
  case True
  then have "py_slice_assign zs j ts (py_slice zs j ts) = zs"
    using assms(2) by (intro py_slice_assign_same) auto
  with assms True show ?thesis by (simp add: history_segment_def)
qed

lemma history_while_skip_fixed:
  assumes "history_while ws thr ts1 i xs = Inr (j1, xs)" "0 < ws" "0 \<le> i" "ts1 \<le> ts2"
  shows "history_while ws thr ts2 i xs = history_while ws thr ts2 j1 xs"
  using assms
proof (induction ws thr ts1 i xs rule: history_while.induct)
  case (1 ws thr ts1 i xs)
  show ?case
  proof (cases "i + ws < ts1")
    case False
    with "1.prems" show ?thesis by (simp add: history_while_stop)
  next
    case True
    from history_while_step_cases[OF "1.prems"(1) True] obtain c where
      c: "classify_aggregation_window (py_slice xs i (i + ws)) thr = Inr c"
      and rec: "history_while ws thr ts1 (i + ws) (py_slice_assign xs i (i + ws) c) = Inr (j1, xs)"
      by blast
    let ?xs' = "py_slice_assign xs i (i + ws) c"
    have lc: "length c = length (py_slice xs i (i + ws))" by (simp add: classify_length[OF c])
    have "take (nat (i + ws)) xs = take (nat (i + ws)) ?xs'"
      using history_while_frame[OF rec] "1.prems" by simp
    moreover have "drop (nat (i + ws)) ?xs' = drop (nat (i + ws)) xs"
      using "1.prems" lc by (intro drop_py_slice_assign) simp_all
    ultimately have same: "?xs' = xs" by (metis append_take_drop_id)
    have "history_while ws thr ts2 (i + ws) xs = history_while ws thr ts2 j1 xs"
      using "1.IH"[OF True c] rec "1.prems" same by simp
    moreover have "history_while ws thr ts2 i xs = history_while ws thr ts2 (i + ws) ?xs'"
      using True "1.prems"(4) c by (intro history_while_unfold_step) simp_all
    ultimately show ?thesis using same by simp
  qed
qed

lemma history_segment_split:
  assumes "history_segment ws thr xs ts = Inr ys" "0 < ws"
  shows "\<exists>j y1. history_while ws thr ts 0 xs = Inr (j, y1) \<and> 0 \<le> j
           \<and> take (nat j) ys = take (nat j) y1
           \<and> (if ts - j > 0
                then \<exists>c. classify_aggregation_window (py_slice y1 j ts) thr = Inr c
                          \<and> ys = py_slice_assign y1 j ts c
                else ys = y1)"
proof -
  from assms obtain j y1 where w: "history_while ws thr ts 0 xs = Inr (j, y1)"
    by (auto simp: history_segment_def split: sum.splits)
  have j0: "0 \<le> j" using history_while_frame[OF w assms(2)] by simp
  show ?thesis
  proof (cases "ts - j > 0")
    case False
    with assms w have "ys = y1" by (simp add: history_segment_def)
    with w j0 False show ?thesis by auto
  next
    case True
    with assms w obtain c where
      c: "classify_aggregation_window (py_slice y1 j ts) thr = Inr c"
      and ys: "ys = py_slice_assign y1 j ts c"
      by (auto simp: history_segment_def split: sum.splits)
    have "take (nat j) ys = take (nat j) y1"
      unfolding ys by (rule take_py_slice_assign[OF j0]) (simp add: classify_length[OF c])
    with w j0 True c ys show ?thesis by auto
  qed
qed

lemma take_take_le: "a \<le> b \<Longrightarrow> take b ys = take b zs \<Longrightarrow> take a ys = take a zs"
  by (metis min.absorb1 take_take)

lemma history_segment_fixed_preserved:
  assumes "0 < ws" "history_segment ws thr xs ts1 = Inr xs" "ts1 \<le> ts2"
    and "history_segment ws thr xs ts2 = Inr ys"
  shows "history_segment ws thr ys ts1 = Inr ys"
proof -
  from history_segment_fixedD[OF assms(2,1)] obtain j1 where
    w1: "history_while ws thr ts1 0 xs = Inr (j1, xs)" and j1: "0 \<le> j1"
    and ex1: "\<not> j1 + ws < ts1"
    and tail1: "ts1 - j1 > 0 \<longrightarrow>
      classify_aggregation_window (py_slice xs j1 ts1) thr = Inr (py_slice xs j1 ts1)"
    by blast
  from history_segment_split[OF assms(4,1)] obtain j2 y1 where
    w2: "history_while ws thr ts2 0 xs = Inr (j2, y1)" and j2: "0 \<le> j2"
    and pre2: "take (nat j2) ys = take (nat j2) y1"
    and fin: "if ts2 - j2 > 0
        then \<exists>c. classify_aggregation_window (py_slice y1 j2 ts2) thr = Inr c
                  \<and> ys = py_slice_assign y1 j2 ts2 c
        else ys = y1"
    by blast
  have len: "length ys = length xs" using history_segment_length_set[OF assms(4)] by simp
  have w2': "history_while ws thr ts2 j1 xs = Inr (j2, y1)"
    using history_while_skip_fixed[OF w1 assms(1) _ assms(3)] w2 by simp
  have j12: "j1 \<le> j2" and pre1: "take (nat j1) y1 = take (nat j1) xs"
    using history_while_frame[OF w2' assms(1) j1] by auto
  have pre: "take (nat j1) ys = take (nat j1) xs"
    using take_take_le[OF _ pre2, of "nat j1"] j12 pre1 by simp
  have loop: "history_while ws thr ts1 0 ys = Inr (j1, ys)"
    by (rule history_while_fixed[OF w1 assms(1) _ len pre]) simp
  have tail: "classify_aggregation_window (py_slice ys j1 ts1) thr = Inr (py_slice ys j1 ts1)"
    if pos: "ts1 - j1 > 0"
  proof -
    have "\<exists>hi c. ts1 \<le> hi \<and> classify_aggregation_window (py_slice xs j1 hi) thr = Inr c
            \<and> py_slice ys j1 hi = c"
    proof (cases "j1 + ws < ts2")
      case True
      from history_while_step_cases[OF w2' True] obtain c where
        c: "classify_aggregation_window (py_slice xs j1 (j1 + ws)) thr = Inr c"
        and rec: "history_while ws thr ts2 (j1 + ws) (py_slice_assign xs j1 (j1 + ws) c)
                    = Inr (j2, y1)"
        by blast
      let ?xs' = "py_slice_assign xs j1 (j1 + ws) c"
      have lc: "length c = length (py_slice xs j1 (j1 + ws))" by (simp add: classify_length[OF c])
      have fr: "j1 + ws \<le> j2" "take (nat (j1 + ws)) y1 = take (nat (j1 + ws)) ?xs'"
        using history_while_frame[OF rec assms(1)] j1 assms(1) by auto
      have "take (nat (j1 + ws)) ys = take (nat (j1 + ws)) y1"
        using take_take_le[OF _ pre2, of "nat (j1 + ws)"] fr(1) by simp
      with fr(2) have p: "take (nat (j1 + ws)) ys = take (nat (j1 + ws)) ?xs'" by simp
      have "length ?xs' = length xs" by (rule length_py_slice_assign[OF lc])
      with len have l': "length ys = length ?xs'" by simp
      have "py_slice ys j1 (j1 + ws) = py_slice ?xs' j1 (j1 + ws)"
        using j1 assms(1) by (intro py_slice_cong_prefix[OF _ _ _ l' p]) simp_all
      also have "\<dots> = c" using j1 assms(1) lc by (intro py_slice_of_assign) simp_all
      finally have "py_slice ys j1 (j1 + ws) = c" .
      with c ex1 show ?thesis by (intro exI[of _ "j1 + ws"] exI[of _ c]) simp
    next
      case False
      then have "history_while ws thr ts2 j1 xs = Inr (j1, xs)" by (rule history_while_stop)
      with w2' have e: "j2 = j1" "y1 = xs" by simp_all
      have "ts2 - j2 > 0" using pos assms(3) e by simp
      with fin e obtain c where
        c: "classify_aggregation_window (py_slice xs j1 ts2) thr = Inr c"
        and ys: "ys = py_slice_assign xs j1 ts2 c"
        by auto
      have "py_slice (py_slice_assign xs j1 ts2 c) j1 ts2 = c"
        using j1 pos assms(3) by (intro py_slice_of_assign) (simp_all add: classify_length[OF c])
      with c ys assms(3) show ?thesis by (intro exI[of _ ts2] exI[of _ c]) simp
    qed
    then obtain hi c where hi: "ts1 \<le> hi"
      and c: "classify_aggregation_window (py_slice xs j1 hi) thr = Inr c"
      and yc: "py_slice ys j1 hi = c"
      by blast
    let ?m = "nat (ts1 - j1)"
    have m: "0 < ?m" using pos by simp
    have sy: "py_slice ys j1 ts1 = take ?m c"
      using py_slice_prefix[of j1 ts1 hi ys] j1 pos hi yc by simp
    have sx: "py_slice xs j1 ts1 = take ?m (py_slice xs j1 hi)"
      using py_slice_prefix[of j1 ts1 hi xs] j1 pos hi by simp
    from classify_cases[OF c] have ne: "py_slice xs j1 hi \<noteq> []"
      and alt: "c = py_slice xs j1 hi
        \<or> (\<exists>v \<in> set (py_slice xs j1 hi). c = replicate (length (py_slice xs j1 hi)) v)"
      by auto
    from alt show ?thesis
    proof
      assume "c = py_slice xs j1 hi"
      then have "py_slice ys j1 ts1 = py_slice xs j1 ts1" using sy sx by simp
      with tail1 pos show ?thesis by simp
    next
      assume "\<exists>v \<in> set (py_slice xs j1 hi). c = replicate (length (py_slice xs j1 hi)) v"
      then obtain v where "c = replicate (length (py_slice xs j1 hi)) v" by blast
      then have "py_slice ys j1 ts1 = replicate (min ?m (length (py_slice xs j1 hi))) v"
        using sy by simp
      moreover have "0 < min ?m (length (py_slice xs j1 hi))" using m ne by simp
      ultimately show ?thesis by (simp only: classify_replicate)
    qed
  qed
  show ?thesis by (rule history_segment_fixedI[OF loop j1]) (use tail in blast)
qed

lemma history_for_preserves_fixed:
  assumes "0 < ws" "history_segment ws thr zs t = Inr zs" "\<forall>u \<in> set rest. t \<le> u"
    and "history_for ws thr rest zs = Inr ys"
  shows "history_segment ws thr ys t = Inr ys"
  using assms(2-)
proof (induction rest arbitrary: zs)
  case Nil
  then show ?case by simp
next
  case (Cons u rest)
  from Cons.prems(3) obtain z1 where s: "history_segment ws thr zs u = Inr z1"
    and r: "history_for ws thr rest z1 = Inr ys"
    by (auto split: sum.splits)
  have "t \<le> u" using Cons.prems(2) by simp
  from history_segment_fixed_preserved[OF assms(1) Cons.prems(1) this s]
  have "history_segment ws thr z1 t = Inr z1" .
  from Cons.IH[OF this _ r] Cons.prems(2) show ?case by simp
qed

lemma history_for_all_fixed:
  assumes "0 < ws" "sorted tss" "history_for ws thr tss xs = Inr ys"
  shows "\<forall>t \<in> set tss. history_segment ws thr ys t = Inr ys"
  using assms(2-)
proof (induction tss arbitrary: xs)
  case Nil
  then show ?case by simp
next
  case (Cons t tss)
  from Cons.prems(2) obtain x1 where s: "history_segment ws thr xs t = Inr x1"
    and r: "history_for ws thr tss x1 = Inr ys"
    by (auto split: sum.splits)
  have le: "\<forall>u \<in> set tss. t \<le> u" and so: "sorted tss" using Cons.prems(1) by auto
  have "history_segment ws thr x1 t = Inr x1" by (rule history_segment_idem[OF s assms(1)])
  from history_for_preserves_fixed[OF assms(1) this le r]
  have "history_segment ws thr ys t = Inr ys" .
  with Cons.IH[OF so r] show ?case by simp
qed

lemma history_for_fixed:
  assumes "\<forall>t \<in> set tss. history_segment ws thr ys t = Inr ys"
  shows "history_for ws thr tss ys = Inr ys"
  using assms by (induction tss) simp_all

lemma history_for_idempotent_sorted:
  assumes "0 < ws" "sorted tss" "history_for ws thr tss xs = Inr ys"
  shows "history_for ws thr tss ys = Inr ys"
  by (rule history_for_fixed[OF history_for_all_fixed[OF assms]])

text \<open>
  Where \<open>traffic_samples\<close> is not nondecreasing a later, shorter pass can rewrite part of a
  chunk of an earlier pass, and a second run then sees a different chunk: with a window of
  five, threshold one half and the entries \<^verbatim>\<open>[5, 3]\<close> the labels \<^verbatim>\<open>2 2 0 1 3\<close> become
  \<^verbatim>\<open>2 2 2 1 3\<close>, and these become \<^verbatim>\<open>2 2 2 2 2\<close>.
\<close>

lemma history_for_unsorted_example:
  "improve_classification_history [5, 3] [(0, 2::int), (1, 2), (2, 0), (3, 1), (4, 3)] 5 (1 / 2)
     = Inr [2, 2, 2, 1, 3]
   \<and> improve_classification_history [5, 3] [(0, 2::int), (1, 2), (2, 2), (3, 1), (4, 3)] 5 (1 / 2)
     = Inr [2, 2, 2, 2, 2]"
  by code_simp


text \<open>
  Claim C10.  With a positive window size and every entry of \<open>traffic_samples\<close> within the
  label sequence, temporal smoothing returns, and its result has the length of the input
  and holds only labels of the input: no chunk is ever filled with a label it did not
  contain.  (By \<open>history_for_length_set\<close> the same holds of every result that is returned
  at all, whatever the parameters.)
\<close>

theorem smoothing_keeps_length_and_labels:
  assumes "0 < window_size"
    and "\<forall>ts \<in> set traffic_samples. ts \<le> int (length traffic_idx)"
  shows "\<exists>ys. improve_classification_history traffic_samples traffic_idx window_size threshold
               = Inr ys
            \<and> length ys = length traffic_idx
            \<and> set ys \<subseteq> snd ` set traffic_idx"
proof -
  from history_for_total[OF assms(1), of traffic_samples "map snd traffic_idx" threshold] assms(2)
  obtain ys where ys: "history_for window_size threshold traffic_samples (map snd traffic_idx) = Inr ys"
    by auto
  from history_for_length_set[OF ys] ys show ?thesis
    by (simp add: improve_classification_history_def)
qed

theorem smoothing_keeps_length_and_labels_witness:
  "(0::int) < 2 \<and> (3::int) \<le> 5 \<and> (5::int) \<le> 5
   \<and> (\<exists>ys. improve_classification_history [3, 5]
                 [(0, 7::int), (1, 7), (2, 8), (3, 9), (4, 9)] 2 (3 / 5) = Inr ys
          \<and> length ys = 5 \<and> set ys \<subseteq> {7, 8, 9})"
proof -
  have pos: "(0::int) < 2" by simp
  have within: "\<forall>ts \<in> set [3, 5 :: int].
      ts \<le> int (length [(0::nat, 7::int), (1, 7), (2, 8), (3, 9), (4, 9)])"
    by simp
  from smoothing_keeps_length_and_labels [OF pos within, of "3 / 5"] obtain ys where
    "improve_classification_history [3, 5]
       [(0, 7::int), (1, 7), (2, 8), (3, 9), (4, 9)] 2 (3 / 5) = Inr ys"
    "length ys = length [(0::nat, 7::int), (1, 7), (2, 8), (3, 9), (4, 9)]"
    "set ys \<subseteq> snd ` set [(0::nat, 7::int), (1, 7), (2, 8), (3, 9), (4, 9)]"
    by blast
  then have "improve_classification_history [3, 5]
       [(0, 7::int), (1, 7), (2, 8), (3, 9), (4, 9)] 2 (3 / 5) = Inr ys
     \<and> length ys = 5 \<and> set ys \<subseteq> {7, 8, 9}"
    by simp
  then have "\<exists>ys. improve_classification_history [3, 5]
       [(0, 7::int), (1, 7), (2, 8), (3, 9), (4, 9)] 2 (3 / 5) = Inr ys
     \<and> length ys = 5 \<and> set ys \<subseteq> {7, 8, 9}"
    by (rule exI)
  then show ?thesis by simp
qed



text \<open>
  Claim C3, evaluated on the code.  Two traffic classes of three windows each, labelled
  \<^verbatim>\<open>0 0 0\<close> and \<^verbatim>\<open>0 1 1\<close>, with the default window size and threshold.  Smoothed on their
  own the segments become \<^verbatim>\<open>0 0 0\<close> and \<^verbatim>\<open>1 1 1\<close>.  The loop restarts at index 0 for
  every entry of \<open>traffic_samples\<close>: given the segment ends \<^verbatim>\<open>[3, 6]\<close> its second pass
  smooths all six labels as one chunk and overwrites the second class with the label of
  the first; given the segment lengths \<^verbatim>\<open>[3, 3]\<close> it smooths the first segment twice and
  never reaches the second.
\<close>

theorem smoothing_spans_class_boundary:
  "improve_classification_history [3] [(0, 0::int), (1, 0), (2, 0)] 40 (3 / 5) = Inr [0, 0, 0]
   \<and> improve_classification_history [3] [(0, 0::int), (1, 1), (2, 1)] 40 (3 / 5) = Inr [1, 1, 1]
   \<and> improve_classification_history [3, 6]
         [(0, 0::int), (1, 0), (2, 0), (3, 0), (4, 1), (5, 1)] 40 (3 / 5)
       = Inr [0, 0, 0, 0, 0, 0]
   \<and> improve_classification_history [3, 3]
         [(0, 0::int), (1, 0), (2, 0), (3, 0), (4, 1), (5, 1)] 40 (3 / 5)
       = Inr [0, 0, 0, 0, 1, 1]"
  by code_simp


section \<open>Properties of binary scoring\<close>

lemma py_slice_nth_map:
  assumes "0 \<le> lo" "lo \<le> hi" "nat hi \<le> length xs"
  shows "py_slice xs lo hi = map (\<lambda>i. xs ! i) [nat lo..<nat hi]"
proof -
  have l: "py_index (length xs) lo = nat lo" "py_index (length xs) hi = nat hi"
    using assms by (auto simp: py_index_nonneg)
  have "take (nat hi - nat lo) (drop (nat lo) xs) = map (\<lambda>i. xs ! i) [nat lo..<nat hi]"
  proof (rule nth_equalityI)
    show "length (take (nat hi - nat lo) (drop (nat lo) xs)) = length (map (\<lambda>i. xs ! i) [nat lo..<nat hi])"
      using assms by simp
  next
    fix i assume "i < length (take (nat hi - nat lo) (drop (nat lo) xs))"
    then have i: "i < nat hi - nat lo" by simp
    then show "take (nat hi - nat lo) (drop (nat lo) xs) ! i = map (\<lambda>i. xs ! i) [nat lo..<nat hi] ! i"
      using assms by simp
  qed
  then show ?thesis by (simp add: py_slice_def Let_def l)
qed

lemma sum_list_py_slice:
  assumes "0 \<le> lo" "lo \<le> hi" "nat hi \<le> length xs"
  shows "sum_list (py_slice xs lo hi) = (\<Sum>i = nat lo..<nat hi. (xs ! i :: int))"
  by (simp add: py_slice_nth_map[OF assms] interv_sum_list_conv_sum_set_nat)

lemma block_sum_cells:
  assumes "0 \<le> r0" "r0 \<le> r1" "nat r1 \<le> length m" "0 \<le> c0" "c0 \<le> c1"
    "\<forall>row \<in> set m. nat c1 \<le> length row"
  shows "block_sum m r0 r1 c0 c1 = (\<Sum>i = nat r0..<nat r1. \<Sum>j = nat c0..<nat c1. m ! i ! j)"
proof -
  have "block_sum m r0 r1 c0 c1
      = (\<Sum>i\<leftarrow>[nat r0..<nat r1]. sum_list (py_slice (m ! i) c0 c1))"
    by (simp add: block_sum_def py_slice_nth_map[OF assms(1,2,3)] comp_def)
  also have "\<dots> = (\<Sum>i = nat r0..<nat r1. sum_list (py_slice (m ! i) c0 c1))"
    by (simp add: interv_sum_list_conv_sum_set_nat)
  also have "\<dots> = (\<Sum>i = nat r0..<nat r1. \<Sum>j = nat c0..<nat c1. m ! i ! j)"
  proof (rule sum.cong[OF refl])
    fix i assume "i \<in> {nat r0..<nat r1}"
    then have "i < length m" using assms(3) by simp
    then have "nat c1 \<le> length (m ! i)" using assms(6) by simp
    then show "sum_list (py_slice (m ! i) c0 c1) = (\<Sum>j = nat c0..<nat c1. m ! i ! j)"
      by (rule sum_list_py_slice[OF assms(4,5)])
  qed
  finally show ?thesis .
qed

text \<open>
  Claim C4 as stated fails: with the classes below the split as the negative superclass,
  the true positives of the matrix \<^verbatim>\<open>[[5, 1], [2, 10]]\<close> split at class 1 are the 10 windows
  of class 1 predicted as class 1, and the true negatives the 5 of class 0 predicted as
  class 0; \<open>binary_scores\<close> returns them the other way round.
\<close>

theorem binary_scores_counterexample:
  "binary_scores [[5, 1], [2, 10]] 1 1
     = Inr (5, 2, 1, 10, Finite (5 / 6), Finite (5 / 7), Finite (15 / 18))
   \<and> spec_binary_counts [[5, 1], [2, 10]] 1 1 = (10, 2, 1, 5)"
  by code_simp

text \<open>
  Claim C4, amended.  On a matrix that covers the classes \<open>0 .. max_class\<close>,
  \<open>binary_scores\<close> sums into \<open>tp\<close> the cells whose true and predicted class are both below
  \<open>change_class\<close>, into \<open>tn\<close> the cells where both lie in \<open>change_class .. max_class\<close>, into
  \<open>fn\<close> the cells with true class in \<open>change_class .. max_class\<close> and predicted class below
  \<open>change_class\<close>, and into \<open>fp\<close> the cells with true class below \<open>change_class\<close> and
  predicted class in \<open>change_class .. max_class\<close>; the three metrics are the quotients
  \<open>tp / (tp + fp)\<close>, \<open>tp / (tp + fn)\<close> and \<open>(tp + tn) / (tp + fp + fn + tn)\<close>.
\<close>

theorem binary_scores_quadrants:
  assumes "0 \<le> change_class" "change_class \<le> max_class + 1"
    and "nat (max_class + 1) \<le> length conf_matrix"
    and "\<forall>row \<in> set conf_matrix. nat (max_class + 1) \<le> length row"
  shows "\<exists>tp fn fp tn.
      tp = (\<Sum>i = 0..<nat change_class. \<Sum>j = 0..<nat change_class. conf_matrix ! i ! j)
    \<and> fn = (\<Sum>i = nat change_class..<nat (max_class + 1).
             \<Sum>j = 0..<nat change_class. conf_matrix ! i ! j)
    \<and> fp = (\<Sum>i = 0..<nat change_class.
             \<Sum>j = nat change_class..<nat (max_class + 1). conf_matrix ! i ! j)
    \<and> tn = (\<Sum>i = nat change_class..<nat (max_class + 1).
             \<Sum>j = nat change_class..<nat (max_class + 1). conf_matrix ! i ! j)
    \<and> binary_scores conf_matrix change_class max_class
        = Inr (tp, fn, fp, tn, np_true_divide tp (tp + fp), np_true_divide tp (tp + fn),
               np_true_divide (tp + tn) (tp + fp + fn + tn))"
proof -
  have low: "nat change_class \<le> length conf_matrix"
    "\<forall>row \<in> set conf_matrix. nat change_class \<le> length row"
    using assms by auto
  have z: "(0::int) \<le> 0" by simp
  have tp: "block_sum conf_matrix 0 change_class 0 change_class
      = (\<Sum>i = 0..<nat change_class. \<Sum>j = 0..<nat change_class. conf_matrix ! i ! j)"
    using block_sum_cells[OF z assms(1) low(1) z assms(1) low(2)] by simp
  have fn: "block_sum conf_matrix change_class (max_class + 1) 0 change_class
      = (\<Sum>i = nat change_class..<nat (max_class + 1).
           \<Sum>j = 0..<nat change_class. conf_matrix ! i ! j)"
    using block_sum_cells[OF assms(1,2,3) z assms(1) low(2)] by simp
  have fp: "block_sum conf_matrix 0 change_class change_class (max_class + 1)
      = (\<Sum>i = 0..<nat change_class.
           \<Sum>j = nat change_class..<nat (max_class + 1). conf_matrix ! i ! j)"
    using block_sum_cells[OF z assms(1) low(1) assms(1,2,4)] by simp
  have tn: "block_sum conf_matrix change_class (max_class + 1) change_class (max_class + 1)
      = (\<Sum>i = nat change_class..<nat (max_class + 1).
           \<Sum>j = nat change_class..<nat (max_class + 1). conf_matrix ! i ! j)"
    by (rule block_sum_cells[OF assms(1,2,3) assms(1,2,4)])
  show ?thesis
    unfolding binary_scores_def Let_def tp fn fp tn by blast
qed

theorem binary_scores_quadrants_witness:
  "(0::int) \<le> 1 \<and> (1::int) \<le> 1 + 1 \<and> nat (1 + 1) \<le> length [[5, 1], [2, 10 :: int]]
   \<and> binary_scores [[5, 1], [2, 10]] 1 1
       = Inr (5, 2, 1, 10, Finite (5 / 6), Finite (5 / 7), Finite (5 / 6))"
proof -
  have rows: "\<forall>row \<in> set [[5, 1], [2, 10 :: int]]. nat (1 + 1) \<le> length row" by simp
  have r: "{0..<Suc 0} = {0}" "{Suc 0..<2} = {Suc 0}" by auto
  from binary_scores_quadrants [of 1 1 "[[5, 1], [2, 10]]", OF _ _ _ rows]
  have "binary_scores [[5, 1], [2, 10]] 1 1
       = Inr (5, 2, 1, 10, Finite (5 / 6), Finite (5 / 7), Finite (5 / 6))"
    by (simp add: r np_true_divide_def)
  then show ?thesis by simp
qed

text \<open>
  Claim C6 as stated fails: when no window of the classes below the split is predicted
  below the split, \<open>tp + fn\<close> is zero and \<open>binary_scores\<close> returns, with \<^verbatim>\<open>nan\<close> as recall.
\<close>

theorem binary_scores_zero_denominator_counterexample:
  "binary_scores [[0, 3], [0, 4]] 1 1 = Inr (0, 0, 3, 4, Finite 0, NaN, Finite (4 / 7))
   \<and> binary_scores [[0, 3], [0, 4]] 1 1 \<noteq> Inl IndeterminateMetricError"
  by code_simp

text \<open>
  Claim C6, amended.  \<open>binary_scores\<close> never fails: it returns for every matrix and every
  split, and a metric whose denominator is zero is returned as \<^verbatim>\<open>nan\<close> or as an infinity.
\<close>

theorem binary_scores_never_fails:
  "\<exists>tp fn fp tn precision recall accuracy.
      binary_scores conf_matrix change_class max_class
        = Inr (tp, fn, fp, tn, precision, recall, accuracy)
    \<and> (tp + fp = 0 \<longrightarrow> precision \<in> {NaN, PosInf, NegInf})
    \<and> (tp + fn = 0 \<longrightarrow> recall \<in> {NaN, PosInf, NegInf})
    \<and> (tp + fp + fn + tn = 0 \<longrightarrow> accuracy \<in> {NaN, PosInf, NegInf})"
  by (simp add: binary_scores_def Let_def np_true_divide_def)

theorem binary_scores_never_fails_witness:
  "\<exists>tp fn fp tn precision recall accuracy.
      binary_scores [[0, 3], [0, 4]] 1 1 = Inr (tp, fn, fp, tn, precision, recall, accuracy)
    \<and> tp + fn = 0 \<and> recall \<in> {NaN, PosInf, NegInf}"
proof -
  from binary_scores_never_fails [of "[[0, 3], [0, 4]]" 1 1]
  obtain tp fn fp tn precision recall accuracy where
    eq: "binary_scores [[0, 3], [0, 4]] 1 1 = Inr (tp, fn, fp, tn, precision, recall, accuracy)"
    and imp: "tp + fn = 0 \<longrightarrow> recall \<in> {NaN, PosInf, NegInf}"
    by blast
  have "binary_scores [[0, 3], [0, 4]] 1 1 = Inr (0, 0, 3, 4, Finite 0, NaN, Finite (4 / 7))"
    by code_simp
  with eq have "tp + fn = 0" by simp
  with imp eq show ?thesis by blast
qed


section \<open>Properties of the two-model ensemble\<close>

lemma map_of_prediction_dict:
  assumes "prediction_dict result n = Inr d"
  shows "map snd d = take n result \<and> (\<forall>i<n. map_of d i = Some (result ! i))"
proof -
  from assms have len: "n \<le> length result" and d: "d = map (\<lambda>i. (i, result ! i)) [0..<n]"
    by (auto simp: prediction_dict_def split: if_splits)
  have "map snd d = map (\<lambda>i. result ! i) [0..<n]" by (simp add: d comp_def)
  also have "\<dots> = take n result"
    using len by (intro nth_equalityI) simp_all
  finally have a: "map snd d = take n result" .
  have "map_of d i = Some (result ! i)" if "i < n" for i
  proof -
    have "map_of (map (\<lambda>i. (i, result ! i)) [0..<n]) i = Some (result ! i)"
      using that by (simp add: map_of_map_restrict)
    then show ?thesis by (simp add: d)
  qed
  with a show ?thesis by blast
qed

lemma prediction_dict_total:
  "n \<le> length result \<Longrightarrow> \<exists>d. prediction_dict result n = Inr d \<and> length d = n"
  by (simp add: prediction_dict_def)

lemma y_test_list_value:
  assumes "\<forall>i \<in> set idx. i \<in> set pm \<longrightarrow> map_of y2 i = Some (f i)"
  shows "y_test_list y2 pm y1 idx = Inr (map (\<lambda>i. if i \<in> set pm then f i else y1 ! i) idx)"
  using assms by (induction idx) auto

lemma columns_24_32: "columns features 24 32 = map (\<lambda>row. take 8 (drop 24 row)) features"
proof -
  have "py_slice row 24 32 = take 8 (drop 24 row)" for row :: "'a list"
    by (cases "length row \<le> 24") (auto simp: py_slice_def Let_def py_index_def min_def)
  then show ?thesis by (simp add: columns_def)
qed

text \<open>
  Claim C2.  Let the two classifiers return a label for every row and let every entry of
  \<open>traffic_samples_number\<close> lie within the windows.  Then the multimethod branch returns a
  list \<open>y_test\<close> with one label per window: at every position \<open>i\<close> it is the silence
  specialist's prediction \<open>L2 ! i\<close> when the smoothed bulk label \<open>L1 ! i\<close> is at least 13,
  and \<open>L1 ! i\<close> otherwise.  The specialist is given the slice \<^verbatim>\<open>[:, 24:32]\<close> of the feature
  matrix, the eight columns 24 to 31 of every row, and nothing else.
\<close>

theorem ensemble_override:
  assumes "length features \<le> length (rf_predict features)"
    and "length features \<le> length (silence_predict (columns features 24 32))"
    and "\<forall>ts \<in> set traffic_samples_number. ts \<le> int (length features)"
  shows "\<exists>y_dict L1 y_test.
      classification_random_forests rf_predict features = Inr y_dict
    \<and> improve_classification_history traffic_samples_number y_dict 40 (3 / 5) = Inr L1
    \<and> classify_multimethod rf_predict silence_predict traffic_samples_number features
        = Inr y_test
    \<and> length L1 = length features
    \<and> length y_test = length L1
    \<and> (\<forall>i < length L1.
          y_test ! i =
            (if 13 \<le> L1 ! i
             then silence_predict (map (\<lambda>row. take 8 (drop 24 row)) features) ! i
             else L1 ! i))"
proof -
  let ?n = "length features"
  let ?L2 = "silence_predict (columns features 24 32)"
  from prediction_dict_total[OF assms(1)] obtain y_dict where
    yd: "classification_random_forests rf_predict features = Inr y_dict" "length y_dict = ?n"
    by (auto simp: classification_random_forests_def)
  have "\<forall>ts \<in> set traffic_samples_number. ts \<le> int (length (map snd y_dict))"
    using assms(3) yd(2) by simp
  from history_for_total[OF _ this, of 40 "3 / 5"] obtain L1 where
    hf: "history_for 40 (3 / 5) traffic_samples_number (map snd y_dict) = Inr L1" by auto
  then have L1: "improve_classification_history traffic_samples_number y_dict 40 (3 / 5) = Inr L1"
    by (simp add: improve_classification_history_def)
  have len1: "length L1 = ?n" using history_for_length_set[OF hf] yd(2) by simp
  have lc: "length (columns features 24 32) = ?n" by (simp add: columns_def)
  from prediction_dict_total[OF assms(2)] obtain y2 where
    y2: "classification_silence silence_predict (columns features 24 32) = Inr y2"
    by (auto simp: classification_silence_def lc)
  then have "prediction_dict ?L2 ?n = Inr y2" by (simp add: classification_silence_def lc)
  from map_of_prediction_dict[OF this] have look: "\<forall>i<?n. map_of y2 i = Some (?L2 ! i)" by simp
  let ?pm = "filter (\<lambda>i. L1 ! i \<ge> 13) [0..<length L1]"
  have "\<forall>i \<in> set [0..<length L1]. i \<in> set ?pm \<longrightarrow> map_of y2 i = Some (?L2 ! i)"
    using look len1 by simp
  from y_test_list_value[OF this, of L1]
  have yt: "y_test_list y2 ?pm L1 [0..<length L1]
      = Inr (map (\<lambda>i. if i \<in> set ?pm then ?L2 ! i else L1 ! i) [0..<length L1])" .
  let ?y = "map (\<lambda>i. if i \<in> set ?pm then ?L2 ! i else L1 ! i) [0..<length L1]"
  have res: "classify_multimethod rf_predict silence_predict traffic_samples_number features
      = Inr ?y"
    by (simp add: classify_multimethod_def yd(1) L1 y2 yt Let_def)
  have "\<forall>i < length L1. ?y ! i = (if 13 \<le> L1 ! i then ?L2 ! i else L1 ! i)" by simp
  then have "\<forall>i < length L1. ?y ! i =
      (if 13 \<le> L1 ! i
       then silence_predict (map (\<lambda>row. take 8 (drop 24 row)) features) ! i else L1 ! i)"
    by (simp only: columns_24_32)
  moreover have "length ?y = length L1" by simp
  ultimately show ?thesis using yd(1) L1 res len1 by blast
qed

theorem ensemble_override_witness:
  "\<exists>y_test.
      classify_multimethod (map (\<lambda>row. row ! 24)) (map sum_list) [2]
        [replicate 24 0 @ [14, 1], replicate 24 0 @ [2, 5 :: int]] = Inr y_test
    \<and> y_test ! 0 = 15 \<and> y_test ! 1 = 2"
proof -
  let ?F = "[replicate 24 0 @ [14, 1], replicate 24 0 @ [2, 5 :: int]]"
  let ?rf = "map (\<lambda>row :: int list. row ! 24)"
  have h1: "length ?F \<le> length (?rf ?F)" by simp
  have h2: "length ?F \<le> length (map sum_list (columns ?F 24 32))" by (simp add: columns_def)
  have h3: "\<forall>ts \<in> set [2 :: int]. ts \<le> int (length ?F)" by simp
  from ensemble_override [of ?F ?rf "map sum_list" "[2]", OF h1 h2 h3]
  obtain y_dict L1 y_test where
    yd: "classification_random_forests ?rf ?F = Inr y_dict"
    and l1: "improve_classification_history [2] y_dict 40 (3 / 5) = Inr L1"
    and res: "classify_multimethod ?rf (map sum_list) [2] ?F = Inr y_test"
    and len: "length L1 = length ?F"
    and sel: "\<forall>i < length L1. y_test ! i =
        (if 13 \<le> L1 ! i then map sum_list (map (\<lambda>row. take 8 (drop 24 row)) ?F) ! i
         else L1 ! i)"
    by blast
  have "classification_random_forests ?rf ?F = Inr [(0, 14), (1, 2)]" by code_simp
  with yd have y_dict: "y_dict = [(0, 14), (1, 2)]" by simp
  have "improve_classification_history [2] [(0, 14 :: int), (1, 2)] 40 (3 / 5) = Inr [14, 2]"
    by code_simp
  with l1 have L1: "L1 = [14, 2]" by (simp add: y_dict)
  from sel have "y_test ! 0 = 15" "y_test ! 1 = 2" by (simp_all add: L1)
  with res show ?thesis by blast
qed


section \<open>Properties of window segmentation\<close>

lemma int_truediv_pos:
  assumes "0 < b" "0 \<le> a"
  shows "int_truediv a b = Inr (a div b)"
proof (cases "a = 0")
  case True
  then show ?thesis using assms by (simp add: int_truediv_def)
next
  case False
  then have "sgn a = 1" "sgn b = 1" using assms by auto
  then show ?thesis using assms by (simp add: int_truediv_def)
qed


lemma concat_map_chunk:
  "concat (map (\<lambda>j. take s (drop (j * s) xs)) [i..<i + w]) = take (w * s) (drop (i * s) xs)"
proof (induction w)
  case 0
  show ?case by simp
next
  case (Suc w)
  have "concat (map (\<lambda>j. take s (drop (j * s) xs)) [i..<i + Suc w])
      = take (w * s) (drop (i * s) xs) @ take s (drop ((i + w) * s) xs)"
    using Suc.IH by simp
  also have "drop ((i + w) * s) xs = drop (w * s) (drop (i * s) xs)"
    by (simp add: add_mult_distrib add.commute)
  also have "take (w * s) (drop (i * s) xs) @ take s (drop (w * s) (drop (i * s) xs))
      = take (w * s + s) (drop (i * s) xs)"
    by (simp add: take_add)
  finally show ?case by (simp add: add.commute)
qed

lemma take_drop_chunks:
  assumes "i + w \<le> k"
  shows "take w (drop i (chunks k s xs)) = map (\<lambda>j. take s (drop (j * s) xs)) [i..<i + w]"
proof -
  have "drop i (chunks k s xs) = map (\<lambda>j. take s (drop (j * s) xs)) [i..<k]"
    by (simp add: chunks_def drop_map)
  moreover have "take w [i..<k] = [i..<i + w]" using assms by (simp add: take_upt)
  ultimately show ?thesis by (simp add: take_map)
qed

lemma length_chunks: "length (chunks k s xs) = k"
  by (simp add: chunks_def)

lemma concat_chunks:
  assumes "i + w \<le> k"
  shows "concat (take w (drop i (chunks k s xs))) = take (w * s) (drop (i * s) xs)"
  by (simp only: take_drop_chunks[OF assms] concat_map_chunk)

lemma chunks_of_empty_rows:
  assumes "\<forall>row \<in> set xs. row = []" "length xs = k * s"
  shows "chunks k s xs = replicate k (replicate s [])"
proof (rule nth_equalityI)
  show "length (chunks k s xs) = length (replicate k (replicate s []))"
    by (simp add: length_chunks)
next
  fix j assume "j < length (chunks k s xs)"
  then have j: "j < k" by (simp add: length_chunks)
  have "j * s + s \<le> k * s"
    using j by (metis Suc_leI mult_Suc mult_le_mono1 add.commute)
  then have len: "length (take s (drop (j * s) xs)) = s" using assms(2) by simp
  have "set (take s (drop (j * s) xs)) \<subseteq> set xs"
    by (meson set_take_subset set_drop_subset subset_trans)
  then have "\<forall>row \<in> set (take s (drop (j * s) xs)). row = []" using assms(1) by blast
  then have "take s (drop (j * s) xs) = replicate s []"
    using len by (metis replicate_eqI)
  then show "chunks k s xs ! j = replicate k (replicate s []) ! j"
    using j by (simp add: chunks_def)
qed

lemma data_obs_list_value:
  assumes "\<forall>i \<in> set idx. np_concatenate (py_slice ds (int i) (ws + int i)) = Inr (f i)"
  shows "data_obs_list ds ws idx = Inr (map f idx)"
  using assms by (induction idx) auto

lemma np_select_value:
  assumes "data_obs \<noteq> []" "\<forall>j \<in> set idx. j < length data_obs"
  shows "np_select data_obs idx = Inr (map (\<lambda>j. data_obs ! j) idx)"
  using assms by (auto simp: np_select_def)

lemma py_slice_to_from: "py_slice_to xs k @ py_slice_from xs k = xs"
  by (simp add: py_slice_to_def py_slice_from_def)

lemma reshape_rows:
  assumes "0 \<le> k" "0 \<le> s" "length rows = nat k * nat s"
    "\<forall>row \<in> set rows. length row = n_cols"
  shows "np_reshape3 rows n_cols k s = Inr (chunks (nat k) (nat s) rows)"
proof (cases "n_cols = 0")
  case True
  then have "\<forall>row \<in> set rows. row = []" using assms(4) by simp
  from chunks_of_empty_rows[OF this assms(3)] True assms(1,2) show ?thesis
    by (simp add: np_reshape3_def)
next
  case False
  then show ?thesis using assms(1,2,3) by (simp add: np_reshape3_def)
qed

lemma window_of_chunks:
  assumes "i + w \<le> k" "0 < w"
  shows "np_concatenate (py_slice (chunks k s xs) (int i) (int w + int i))
       = Inr (take (w * s) (drop (i * s) xs))"
proof -
  have "py_slice (chunks k s xs) (int i) (int w + int i) = take w (drop i (chunks k s xs))"
    using assms(1) by (simp add: py_slice_def Let_def py_index_def length_chunks min_def nat_add_distrib)
  moreover have "length (take w (drop i (chunks k s xs))) = w"
    using assms(1) by (simp add: length_chunks)
  then have "take w (drop i (chunks k s xs)) \<noteq> []" using assms(2) by auto
  ultimately show ?thesis
    using concat_chunks[OF assms(1), of s xs] by (simp add: np_concatenate_def)
qed

text \<open>
  Claim C1, evaluated on the code.  With four samples, \<^verbatim>\<open>obs_window = 4\<close> and
  \<^verbatim>\<open>slide_window = 2\<close> the claim promises exactly \<open>floor (0 / 2) = 0\<close> windows.  The code
  computes \<^verbatim>\<open>n_obs_windows = 0\<close> and builds the empty list of windows, and then raises
  \<^verbatim>\<open>IndexError\<close>: \<^verbatim>\<open>np.array([])\<close> has a single axis and is indexed with three.  By
  \<open>break_train_test_no_window_raises\<close> the same happens for every valid pair of sizes and
  every length from \<open>obs_window\<close> up to, but not including, \<open>obs_window + slide_window\<close>.
\<close>

theorem break_train_test_exact_fit_raises:
  "break_train_test [[1], [2], [3], [4 :: nat]] 1 4 2 (1 / 2) False [] = Inl IndexError"
  by code_simp

text \<open>
  From one window on, that is for at least \<open>obs_window + slide_window\<close> samples, the code
  does what the claim says.  For positive sizes with \<open>slide_window\<close> dividing \<open>obs_window\<close>,
  \<open>break_train_test\<close> returns; its two splits together hold exactly
  \<open>floor ((n - obs_window) / slide_window)\<close> windows; and they are, in the order of the
  split (the identity, or the permutation drawn for a random split), the windows \<open>i\<close> made
  of the \<open>obs_window\<close> consecutive samples from index \<open>i * slide_window\<close> on.
\<close>

theorem break_train_test_windows:
  assumes "0 < slide_window" "0 < obs_window" "obs_window mod slide_window = 0"
    and "obs_window + slide_window \<le> int (length data)"
    and "\<forall>row \<in> set data. length row = n_cols"
    and "random_split \<longrightarrow> distinct permutation \<and>
           set permutation = {0..<nat ((int (length data) - obs_window) div slide_window)}"
  shows "\<exists>data_train data_test.
      break_train_test data n_cols obs_window slide_window train_percentage random_split
        permutation = Inr (data_train, data_test)
    \<and> length data_train + length data_test
        = nat ((int (length data) - obs_window) div slide_window)
    \<and> data_train @ data_test
        = map (\<lambda>i. take (nat obs_window) (drop (i * nat slide_window) data))
            (if random_split then permutation
             else [0..<nat ((int (length data) - obs_window) div slide_window)])"
proof -
  define ws where "ws = obs_window div slide_window"
  define n_obs where "n_obs = (int (length data) - obs_window) div slide_window"
  define n_samples where "n_samples = (n_obs - 1) * slide_window + obs_window"
  define k where "k = n_obs + ws - 1"
  define S where "S = nat slide_window"
  define W where "W = nat ws"
  define N where "N = nat n_obs"
  define window where "window = (\<lambda>i. take (nat obs_window) (drop (i * S) data))"
  define order where "order = (if random_split then permutation else [0..<nat n_obs])"
  define nt where "nt = int_of_product n_obs train_percentage"
  have ws_obs: "ws * slide_window = obs_window"
    using assms(3) div_mult_mod_eq[of obs_window slide_window] by (simp add: ws_def)
  have "0 < ws * slide_window" using ws_obs assms(2) by simp
  then have "0 < ws" using assms(1) by (simp add: zero_less_mult_iff)
  then have ws1: "1 \<le> ws" by simp
  have d: "slide_window \<le> int (length data) - obs_window" using assms(4) by simp
  have "0 < (int (length data) - obs_window) div slide_window"
    using pos_imp_zdiv_pos_iff[OF assms(1), of "int (length data) - obs_window"] d by blast
  then have n1: "1 \<le> n_obs" by (simp add: n_obs_def)
  have n_le: "n_obs * slide_window \<le> int (length data) - obs_window"
    unfolding n_obs_def
    using div_mult_mod_eq[of "int (length data) - obs_window" slide_window]
      pos_mod_sign[OF assms(1), of "int (length data) - obs_window"]
    by linarith
  have nonneg: "0 \<le> (n_obs - 1) * slide_window"
    using n1 assms(1) by (intro mult_nonneg_nonneg) simp_all
  have expand: "(n_obs - 1) * slide_window = n_obs * slide_window - slide_window"
    by (simp add: algebra_simps)
  have ns_le: "n_samples \<le> int (length data)" "0 \<le> n_samples"
    using n_le nonneg expand assms(1,2) unfolding n_samples_def by linarith+
  have ks: "k * slide_window = n_samples"
    using ws_obs by (simp add: k_def n_samples_def algebra_simps)
  have k0: "0 \<le> k" using n1 ws1 by (simp add: k_def)
  have t1: "int_truediv obs_window slide_window = Inr ws"
    using int_truediv_pos[of slide_window obs_window] assms(1,2) by (simp add: ws_def)
  have t2: "int_truediv (int (length data) - obs_window) slide_window = Inr n_obs"
    using int_truediv_pos[of slide_window "int (length data) - obs_window"] assms(1) d
    by (simp add: n_obs_def)
  let ?rows = "py_slice_to data n_samples"
  have nat_ns: "nat n_samples \<le> length data" using ns_le by linarith
  have rows: "?rows = take (nat n_samples) data"
    using ns_le nat_ns by (simp add: py_slice_to_def py_index_def min_def)
  have "nat k * nat slide_window = nat (k * slide_window)"
    using k0 by (simp add: nat_mult_distrib)
  then have len_rows: "length ?rows = nat k * nat slide_window"
    using nat_ns ks by (simp add: rows min_def)
  have wf_rows: "\<forall>row \<in> set ?rows. length row = n_cols"
    using assms(5) unfolding rows by (meson in_set_takeD)
  have t3: "np_reshape3 ?rows n_cols k slide_window = Inr (chunks (nat k) S ?rows)"
    unfolding S_def using reshape_rows[OF k0 _ len_rows wf_rows] assms(1) by simp
  have KNW: "nat k = N + W - 1" "0 < W" "0 < N"
    using n1 ws1 by (auto simp: k_def N_def W_def)
  have WS: "W * S = nat obs_window"
    using ws_obs ws1 assms(1) by (simp add: W_def S_def nat_mult_distrib[symmetric])
  have win: "np_concatenate (py_slice (chunks (nat k) S ?rows) (int i) (ws + int i))
      = Inr (window i)" if "i < N" for i
  proof -
    have iw: "i + W \<le> nat k" using that KNW by simp
    have wsW: "ws = int W" using ws1 by (simp add: W_def)
    have "int (i * S) + obs_window \<le> n_samples"
    proof -
      have "int i \<le> n_obs - 1" using that by (simp add: N_def)
      then have "int i * slide_window \<le> (n_obs - 1) * slide_window"
        using assms(1) by (simp add: mult_right_mono)
      then show ?thesis using assms(1) by (simp add: n_samples_def S_def)
    qed
    then have fit: "i * S + nat obs_window \<le> nat n_samples" using assms(2) by linarith
    have "take (W * S) (drop (i * S) ?rows) = take (nat obs_window) (drop (i * S) data)"
      unfolding WS rows using fit by (simp add: drop_take min_def)
    then show ?thesis
      using window_of_chunks[OF iw KNW(2), of S ?rows] by (simp add: wsW window_def)
  qed
  have t4: "data_obs_list (chunks (nat k) S ?rows) ws [0..<nat n_obs] = Inr (map window [0..<N])"
    unfolding N_def[symmetric] by (rule data_obs_list_value) (use win in simp)
  let ?obs = "map window [0..<N]"
  have obs_ne: "?obs \<noteq> []" using KNW(3) by simp
  have ord: "\<forall>j \<in> set order. j < N"
    using assms(6) by (auto simp: order_def N_def n_obs_def)
  have len_ord: "length order = N"
  proof (cases random_split)
    case True
    with assms(6) have "distinct permutation" "set permutation = {0..<N}"
      by (simp_all add: N_def n_obs_def)
    then have "length permutation = card {0..<N}" by (metis distinct_card)
    with True show ?thesis by (simp add: order_def)
  next
    case False
    then show ?thesis by (simp add: order_def N_def)
  qed
  let ?tr = "py_slice_to order nt" and ?te = "py_slice_from order nt"
  have sub: "\<forall>j \<in> set ?tr. j < length ?obs" "\<forall>j \<in> set ?te. j < length ?obs"
    using ord by (auto simp: py_slice_to_def py_slice_from_def dest: in_set_takeD in_set_dropD)
  have t5: "np_select ?obs ?tr = Inr (map (\<lambda>j. ?obs ! j) ?tr)"
    by (rule np_select_value[OF obs_ne sub(1)])
  have t6: "np_select ?obs ?te = Inr (map (\<lambda>j. ?obs ! j) ?te)"
    by (rule np_select_value[OF obs_ne sub(2)])
  have res: "break_train_test data n_cols obs_window slide_window train_percentage random_split
        permutation = Inr (map (\<lambda>j. ?obs ! j) ?tr, map (\<lambda>j. ?obs ! j) ?te)"
    unfolding break_train_test_def
    by (simp only: t1 t2 sum.case Let_def n_samples_def[symmetric] k_def[symmetric]
        t3 t4 order_def[symmetric] nt_def[symmetric] t5 t6)
  have "map (\<lambda>j. ?obs ! j) ?tr @ map (\<lambda>j. ?obs ! j) ?te = map (\<lambda>j. ?obs ! j) order"
    by (simp only: map_append[symmetric] py_slice_to_from)
  also have "\<dots> = map window order"
    using ord by (intro map_cong) simp_all
  finally have cat: "map (\<lambda>j. ?obs ! j) ?tr @ map (\<lambda>j. ?obs ! j) ?te = map window order" .
  have "length (map (\<lambda>j. ?obs ! j) ?tr) + length (map (\<lambda>j. ?obs ! j) ?te) = N"
    using len_ord py_slice_to_from[of order nt] by (metis length_append length_map)
  with res cat show ?thesis
    unfolding window_def order_def N_def n_obs_def S_def by blast
qed

theorem break_train_test_windows_witness:
  "\<exists>data_train data_test.
      break_train_test (map (\<lambda>i. [i]) [0..<10 :: nat]) 1 4 2 (1 / 2) True [2, 0, 1]
        = Inr (data_train, data_test)
    \<and> length data_train + length data_test = 3
    \<and> data_train @ data_test
        = [[[4], [5], [6], [7]], [[0], [1], [2], [3]], [[2], [3], [4], [5]]]"
proof -
  let ?data = "map (\<lambda>i. [i]) [0..<10 :: nat]"
  have h1: "(0::int) < 2" and h2: "(0::int) < 4" and h3: "(4::int) mod 2 = 0" by simp_all
  have h4: "(4::int) + 2 \<le> int (length ?data)" by simp
  have h5: "\<forall>row \<in> set ?data. length row = 1" by simp
  have n: "nat ((int (length ?data) - 4) div 2) = 3" by simp
  have h6: "True \<longrightarrow> distinct [2, 0, 1 :: nat]
      \<and> set [2, 0, 1 :: nat] = {0..<nat ((int (length ?data) - 4) div 2)}"
    unfolding n by auto
  from break_train_test_windows [OF h1 h2 h3 h4 h5 h6, of "1 / 2"]
  obtain data_train data_test where
    r: "break_train_test ?data 1 4 2 (1 / 2) True [2, 0, 1] = Inr (data_train, data_test)"
    and l: "length data_train + length data_test = nat ((int (length ?data) - 4) div 2)"
    and w: "data_train @ data_test
        = map (\<lambda>i. take (nat 4) (drop (i * nat 2) ?data)) [2, 0, 1]"
    by auto
  have "map (\<lambda>i. take (nat 4) (drop (i * nat 2) ?data)) [2, 0, 1]
      = [[[4], [5], [6], [7]], [[0], [1], [2], [3]], [[2], [3], [4], [5]]]"
    by code_simp
  with r l w n show ?thesis by auto
qed


lemma np_select_Nil: "np_select [] idx = Inl IndexError"
  by (simp add: np_select_def)




text \<open>
  The lengths between \<open>obs_window\<close> and \<open>obs_window + slide_window\<close>: the sizes are valid,
  the reshape succeeds, no window is computed, and the three-index read of the empty
  window array raises.
\<close>

lemma break_train_test_no_window_raises:
  assumes "0 < slide_window" "0 < obs_window" "obs_window mod slide_window = 0"
    and "obs_window \<le> int (length data)" "int (length data) < obs_window + slide_window"
    and "\<forall>row \<in> set data. length row = n_cols"
  shows "break_train_test data n_cols obs_window slide_window train_percentage random_split
           permutation = Inl IndexError"
proof -
  define ws where "ws = obs_window div slide_window"
  define n_samples where "n_samples = (0 - 1) * slide_window + obs_window"
  define k where "k = 0 + ws - 1"
  have ws_obs: "ws * slide_window = obs_window"
    using assms(3) div_mult_mod_eq[of obs_window slide_window] by (simp add: ws_def)
  have "0 < ws * slide_window" using ws_obs assms(2) by simp
  then have "0 < ws" using assms(1) by (simp add: zero_less_mult_iff)
  then have k0: "0 \<le> k" by (simp add: k_def)
  have ks: "k * slide_window = n_samples"
    using ws_obs by (simp add: k_def n_samples_def algebra_simps)
  have ns0: "0 \<le> n_samples"
    using ks k0 assms(1) by (metis mult_nonneg_nonneg less_imp_le)
  have ns_le: "n_samples \<le> int (length data)"
    using assms(1,4) by (simp add: n_samples_def)
  have d: "0 \<le> int (length data) - obs_window" using assms(4) by simp
  have "(int (length data) - obs_window) div slide_window = 0"
    using d assms(5) by (intro div_pos_pos_trivial) simp_all
  then have t2: "int_truediv (int (length data) - obs_window) slide_window = Inr 0"
    using int_truediv_pos[OF assms(1) d] by simp
  have t1: "int_truediv obs_window slide_window = Inr ws"
    using int_truediv_pos[of slide_window obs_window] assms(1,2) by (simp add: ws_def)
  let ?rows = "py_slice_to data n_samples"
  have nat_ns: "nat n_samples \<le> length data" using ns_le ns0 by linarith
  have rows: "?rows = take (nat n_samples) data"
    using ns0 nat_ns by (simp add: py_slice_to_def py_index_def min_def)
  have "nat k * nat slide_window = nat (k * slide_window)"
    using k0 by (simp add: nat_mult_distrib)
  then have len_rows: "length ?rows = nat k * nat slide_window"
    using nat_ns ks by (simp add: rows min_def)
  have wf_rows: "\<forall>row \<in> set ?rows. length row = n_cols"
    using assms(6) unfolding rows by (meson in_set_takeD)
  have t3: "np_reshape3 ?rows n_cols k slide_window
      = Inr (chunks (nat k) (nat slide_window) ?rows)"
    using reshape_rows[OF k0 _ len_rows wf_rows] assms(1) by simp
  have t4: "data_obs_list ds ws [0..<nat 0] = Inr []" for ds :: "'a list list list"
    by simp
  show ?thesis
    unfolding break_train_test_def
    by (simp only: t1 t2 sum.case Let_def n_samples_def[symmetric] k_def[symmetric]
        t3 t4 np_select_Nil)
qed




text \<open>
  Claim C8, evaluated on the code.  With \<^verbatim>\<open>obs_window = 6\<close> and \<^verbatim>\<open>slide_window = 3\<close>,
  sequences of six and of two samples, and the empty sequence with the default sizes, do
  not give two empty splits: each call raises \<^verbatim>\<open>IndexError\<close>.  By
  \<open>break_train_test_too_short\<close> no sequence of at most \<open>obs_window\<close> samples ever returns.
\<close>

theorem break_train_test_short_input_raises:
  "break_train_test (map (\<lambda>i. [i, i]) [0..<6 :: nat]) 2 6 3 (1 / 2) False [] = Inl IndexError
   \<and> break_train_test (map (\<lambda>i. [i, i]) [0..<2 :: nat]) 2 6 3 (1 / 2) False []
       = Inl IndexError
   \<and> break_train_test ([] :: nat list list) 4 240 40 (1 / 2) False [] = Inl IndexError"
  by code_simp

end
